theory Spec2Isabelle
  imports Main
begin

section \<open>The thread pool of commons/worker.py\<close>

text \<open>
  The module defines \<open>WorkQ\<close>, a \<open>queue.Queue\<close> guarded by a
  \<open>threading.Semaphore\<close>, and \<open>Workers\<close>, a pool of threads that all run
  \<open>Workers.worker\<close> on one shared \<open>WorkQ\<close>. Threads are modelled by interleaving:
  every call of a method of \<open>queue.Queue\<close> or \<open>threading.Semaphore\<close> is one atomic
  step (each of them runs under the lock of its object), a thread is a program point, and a
  schedule is the list of the threads that take the steps. A step that the source would
  block on is not enabled (\<open>None\<close>).
\<close>

subsection \<open>Exceptions\<close>

datatype error =
    ValueError        \<comment> \<open>\<open>Semaphore(-1)\<close>; \<open>task_done()\<close> called too many times\<close>
  | AttributeError    \<comment> \<open>an attribute the object does not have: \<open>get\<close>, \<open>func\<close>\<close>
  | TypeError         \<comment> \<open>\<open>dict.get()\<close> called without a key\<close>
  | IndexError        \<comment> \<open>\<open>self.w_workers[i]\<close> out of range\<close>
  | HandlerError      \<comment> \<open>whatever the handler \<open>wq.func(wi)\<close> raised\<close>
  | Empty             \<comment> \<open>\<open>queue.Empty\<close> of a \<open>get(timeout=...)\<close>\<close>

subsection \<open>WorkQ\<close>

text \<open>
  The fields of a \<open>WorkQ\<close> object: the three the class sets itself, and of the
  inherited \<open>queue.Queue\<close> its \<open>maxsize\<close>, its deque \<open>queue\<close> and its counter
  \<open>unfinished_tasks\<close>. The value of the semaphore is its field \<open>semaphore\<close>.
\<close>

record ('f, 'i) workq =
  lock_req :: bool
  func :: 'f
  semaphore :: nat
  maxsize :: nat
  queue :: "'i list"
  unfinished_tasks :: nat

text \<open>
  \<open>WorkQ.__init__(func, maxsize)\<close>. \<open>threading.Semaphore(value)\<close> raises
  \<open>ValueError\<close> for a negative value, so a constructed queue has a natural
  \<open>maxsize\<close>.
\<close>

definition WorkQ :: "'f \<Rightarrow> int \<Rightarrow> error + ('f, 'i) workq" where
  "WorkQ f m =
     (if m < 0 then Inl ValueError
      else Inr \<lparr>lock_req = (m \<noteq> 0), func = f, semaphore = nat m, maxsize = nat m,
                queue = [], unfinished_tasks = 0\<rparr>)"

text \<open>\<open>Semaphore.acquire()\<close> blocks while the value is 0; \<open>release()\<close> adds one.\<close>

definition acquire :: "('f, 'i) workq \<Rightarrow> ('f, 'i) workq option" where
  "acquire q =
     (if semaphore q = 0 then None else Some (q\<lparr>semaphore := semaphore q - 1\<rparr>))"

definition release :: "('f, 'i) workq \<Rightarrow> ('f, 'i) workq" where
  "release q = q\<lparr>semaphore := Suc (semaphore q)\<rparr>"

text \<open>
  \<open>queue.Queue.put\<close> blocks while a bounded queue is full, \<open>get\<close> while the
  queue is empty; \<open>task_done\<close> raises when the counter is already 0; \<open>join\<close>
  blocks until the counter is 0.
\<close>

definition Queue_put :: "('f, 'i) workq \<Rightarrow> 'i \<Rightarrow> ('f, 'i) workq option" where
  "Queue_put q x =
     (if 0 < maxsize q \<and> maxsize q \<le> length (queue q) then None
      else Some (q\<lparr>queue := queue q @ [x], unfinished_tasks := Suc (unfinished_tasks q)\<rparr>))"

definition Queue_get :: "('f, 'i) workq \<Rightarrow> ('i \<times> ('f, 'i) workq) option" where
  "Queue_get q = (case queue q of [] \<Rightarrow> None | x # xs \<Rightarrow> Some (x, q\<lparr>queue := xs\<rparr>))"

definition Queue_task_done :: "('f, 'i) workq \<Rightarrow> error + ('f, 'i) workq" where
  "Queue_task_done q =
     (if unfinished_tasks q = 0 then Inl ValueError
      else Inr (q\<lparr>unfinished_tasks := unfinished_tasks q - 1\<rparr>))"

definition Queue_join :: "('f, 'i) workq \<Rightarrow> bool" where
  "Queue_join q = (unfinished_tasks q = 0)"

text \<open>
  \<open>WorkQ.put\<close> is \<open>put_lock\<close> followed by \<open>Queue_put\<close>, and
  \<open>WorkQ.task_done\<close> is \<open>task_done_unlock\<close> followed by \<open>Queue_task_done\<close>:
  two atomic steps each, which other threads may interleave with.
\<close>

definition put_lock :: "('f, 'i) workq \<Rightarrow> ('f, 'i) workq option" where
  "put_lock q = (if lock_req q then acquire q else Some q)"

definition task_done_unlock :: "('f, 'i) workq \<Rightarrow> ('f, 'i) workq" where
  "task_done_unlock q = (if lock_req q then release q else q)"

subsection \<open>Workers\<close>

text \<open>
  The objects that \<open>wenque\<close> may be given, and that a queue may hold. The queues that
  items refer to live in a store, since several items may refer to the same one. The
  pool's own queue is not in the store: it is the field \<open>w_workq\<close> of the pool, and
  \<open>Self\<close> refers to it. Of a plain \<open>queue.Queue\<close> in the store only the fields of
  \<open>queue.Queue\<close> mean anything. Any object with no attribute \<open>get\<close> (a number, a
  string, a tuple, an object of the caller's) is an \<open>Obj\<close>.
\<close>

type_synonym addr = nat

datatype 'a item =
    PyNone         \<comment> \<open>\<open>None\<close>\<close>
  | QRef addr      \<comment> \<open>a \<open>WorkQ\<close> of the store\<close>
  | Self           \<comment> \<open>the pool's own queue, \<open>self.w_workq\<close>\<close>
  | PlainQ addr    \<comment> \<open>a plain \<open>queue.Queue\<close> of the store: it has \<open>get\<close> and no \<open>func\<close>\<close>
  | Dict 'a        \<comment> \<open>a \<open>dict\<close>: its \<open>get()\<close> without a key raises \<open>TypeError\<close>\<close>
  | Obj 'a         \<comment> \<open>an object with no attribute \<open>get\<close>\<close>

text \<open>
  The program points of \<open>Workers.worker\<close>, each named after the atomic step the thread
  takes next, and the ways the thread ends: after the \<open>break\<close> of line 64, or by an
  exception that leaves the loop. When \<open>wq\<close> is the pool's own queue, lines 65 to 67
  work on \<open>self.w_workq\<close>, and the thread holds two of its items at once; these program
  points have names of their own, and so has the end of such a thread by an exception.
\<close>

datatype 'a wstate =
    Fetch                    \<comment> \<open>line 61: \<open>wq = self.w_workq.get()\<close>\<close>
  | SentinelRelease          \<comment> \<open>line 63, \<open>wq is None\<close>: the release in \<open>task_done\<close>\<close>
  | SentinelDone             \<comment> \<open>line 63: \<open>Queue.task_done\<close>\<close>
  | SentinelBreak            \<comment> \<open>line 64: \<open>break\<close>, and the thread ends\<close>
  | InnerFetch "'a item"     \<comment> \<open>line 65: \<open>wi = wq.get()\<close>\<close>
  | Call addr "'a item"      \<comment> \<open>line 66: \<open>wq.func(wi)\<close>, \<open>wq\<close> a \<open>WorkQ\<close> of the store\<close>
  | CallSelf "'a item"       \<comment> \<open>line 66: \<open>wq.func(wi)\<close>, \<open>wq\<close> the pool's own queue\<close>
  | CallPlain                \<comment> \<open>line 66: \<open>wq.func\<close>, \<open>wq\<close> a plain \<open>queue.Queue\<close>\<close>
  | InnerRelease addr        \<comment> \<open>line 67: the release in \<open>wq.task_done()\<close>\<close>
  | InnerDone addr           \<comment> \<open>line 67: \<open>Queue.task_done\<close> of \<open>wq\<close>\<close>
  | SelfRelease              \<comment> \<open>line 67, \<open>wq\<close> the pool's own queue: the release\<close>
  | SelfDone                 \<comment> \<open>line 67, \<open>wq\<close> the pool's own queue: \<open>Queue.task_done\<close>\<close>
  | OuterRelease             \<comment> \<open>line 68: the release in \<open>self.w_workq.task_done()\<close>\<close>
  | OuterDone                \<comment> \<open>line 68: \<open>Queue.task_done\<close> of \<open>self.w_workq\<close>\<close>
  | Exited
  | Crashed error
  | CrashedSelf error        \<comment> \<open>ended by the exception of line 66, \<open>wq\<close> the pool's own queue\<close>

text \<open>
  The thread that owns the pool runs a script of calls of \<open>wenque\<close> and
  \<open>end_workers\<close>; its program points are those inside the two methods.
\<close>

datatype 'a call = Wenque "'a item" | EndWorkers

datatype 'a mstate =
    MIdle                    \<comment> \<open>between two calls\<close>
  | WenqueAcquire "'a item"  \<comment> \<open>line 71, in \<open>put\<close>: the acquire\<close>
  | WenqueEnqueue "'a item"  \<comment> \<open>line 71, in \<open>put\<close>: \<open>Queue.put\<close>\<close>
  | EndAcquire nat           \<comment> \<open>line 75, round \<open>i\<close>: the acquire of \<open>put(None)\<close>\<close>
  | EndEnqueue nat           \<comment> \<open>line 75, round \<open>i\<close>: \<open>Queue.put\<close> of \<open>None\<close>\<close>
  | EndJoin                  \<comment> \<open>line 76: \<open>self.w_workq.join()\<close>\<close>
  | EndJoinThread nat        \<comment> \<open>line 80, round \<open>i\<close>: \<open>self.w_workers[i].join()\<close>\<close>
  | MRaised error

text \<open>
  The pool with its threads. \<open>calls\<close>, \<open>pool_calls\<close> and \<open>put_log\<close> are history
  variables that no step reads: the invocations made so far of the \<open>func\<close> of a queue of
  the store, those of the \<open>func\<close> of the pool's own queue, and the items enqueued so
  far.
\<close>

record ('f, 'a) pool =
  w_workq :: "('f, 'a item) workq"
  w_workers :: "'a wstate list"
  heap :: "addr \<Rightarrow> ('f, 'a item) workq"
  main :: "'a mstate"
  script :: "'a call list"
  calls :: "('f \<times> 'a item) list"
  pool_calls :: "('f \<times> 'a item) list"
  put_log :: "'a item list"

text \<open>
  \<open>start_workers(nworkers, func)\<close>: the queue is \<open>WorkQ(func, nworkers)\<close>, and
  \<open>nworkers\<close> threads are started, each at the top of its loop. The store of the
  \<open>WorkQ\<close> objects the caller has built and the script it is going to run are parameters.
\<close>

definition start_workers ::
  "int \<Rightarrow> 'f \<Rightarrow> (addr \<Rightarrow> ('f, 'a item) workq) \<Rightarrow> 'a call list
     \<Rightarrow> error + ('f, 'a) pool" where
  "start_workers nworkers f h cs =
     (case WorkQ f nworkers of
        Inl e \<Rightarrow> Inl e
      | Inr q \<Rightarrow> Inr \<lparr>w_workq = q, w_workers = replicate (nat nworkers) Fetch, heap = h,
                      main = MIdle, script = cs, calls = [], pool_calls = [],
                      put_log = []\<rparr>)"

definition set_worker :: "nat \<Rightarrow> 'a wstate \<Rightarrow> ('f, 'a) pool \<Rightarrow> ('f, 'a) pool" where
  "set_worker i w s = s\<lparr>w_workers := (w_workers s)[i := w]\<rparr>"

text \<open>
  One atomic step of worker \<open>i\<close>. \<open>raises f x\<close> tells whether the call \<open>f(x)\<close>
  raises. Nothing catches an exception in \<open>Workers.worker\<close>, so the thread ends with it.
  At line 65 the item decides: a queue's \<open>get()\<close> takes its next element or blocks, a
  \<open>dict\<close>'s raises \<open>TypeError\<close>, and without an attribute \<open>get\<close> the lookup
  raises \<open>AttributeError\<close>, as it does for \<open>func\<close> on a plain \<open>queue.Queue\<close> at
  line 66.
\<close>

definition worker_step ::
  "('f \<Rightarrow> 'a item \<Rightarrow> bool) \<Rightarrow> nat \<Rightarrow> ('f, 'a) pool \<Rightarrow> ('f, 'a) pool option" where
  "worker_step raises i s =
     (if length (w_workers s) \<le> i then None
      else case w_workers s ! i of
        Fetch \<Rightarrow>
          (case Queue_get (w_workq s) of
             None \<Rightarrow> None
           | Some (wq, q') \<Rightarrow>
               Some (set_worker i (if wq = PyNone then SentinelRelease else InnerFetch wq)
                       (s\<lparr>w_workq := q'\<rparr>)))
      | SentinelRelease \<Rightarrow>
          Some (set_worker i SentinelDone (s\<lparr>w_workq := task_done_unlock (w_workq s)\<rparr>))
      | SentinelDone \<Rightarrow>
          (case Queue_task_done (w_workq s) of
             Inl e \<Rightarrow> Some (set_worker i (Crashed e) s)
           | Inr q' \<Rightarrow> Some (set_worker i SentinelBreak (s\<lparr>w_workq := q'\<rparr>)))
      | SentinelBreak \<Rightarrow> Some (set_worker i Exited s)
      | InnerFetch it \<Rightarrow>
          (case it of
             QRef a \<Rightarrow>
               (case Queue_get (heap s a) of
                  None \<Rightarrow> None
                | Some (wi, q') \<Rightarrow>
                    Some (set_worker i (Call a wi) (s\<lparr>heap := (heap s)(a := q')\<rparr>)))
           | Self \<Rightarrow>
               (case Queue_get (w_workq s) of
                  None \<Rightarrow> None
                | Some (wi, q') \<Rightarrow> Some (set_worker i (CallSelf wi) (s\<lparr>w_workq := q'\<rparr>)))
           | PlainQ a \<Rightarrow>
               (case Queue_get (heap s a) of
                  None \<Rightarrow> None
                | Some (wi, q') \<Rightarrow>
                    Some (set_worker i CallPlain (s\<lparr>heap := (heap s)(a := q')\<rparr>)))
           | Dict x \<Rightarrow> Some (set_worker i (Crashed TypeError) s)
           | Obj x \<Rightarrow> Some (set_worker i (Crashed AttributeError) s)
           | PyNone \<Rightarrow> Some (set_worker i (Crashed AttributeError) s))
      | Call a wi \<Rightarrow>
          Some (set_worker i
                  (if raises (func (heap s a)) wi then Crashed HandlerError else InnerRelease a)
                  (s\<lparr>calls := calls s @ [(func (heap s a), wi)]\<rparr>))
      | CallSelf wi \<Rightarrow>
          Some (set_worker i
                  (if raises (func (w_workq s)) wi then CrashedSelf HandlerError else SelfRelease)
                  (s\<lparr>pool_calls := pool_calls s @ [(func (w_workq s), wi)]\<rparr>))
      | CallPlain \<Rightarrow> Some (set_worker i (Crashed AttributeError) s)
      | InnerRelease a \<Rightarrow>
          Some (set_worker i (InnerDone a)
                  (s\<lparr>heap := (heap s)(a := task_done_unlock (heap s a))\<rparr>))
      | InnerDone a \<Rightarrow>
          (case Queue_task_done (heap s a) of
             Inl e \<Rightarrow> Some (set_worker i (Crashed e) s)
           | Inr q' \<Rightarrow> Some (set_worker i OuterRelease (s\<lparr>heap := (heap s)(a := q')\<rparr>)))
      | SelfRelease \<Rightarrow>
          Some (set_worker i SelfDone (s\<lparr>w_workq := task_done_unlock (w_workq s)\<rparr>))
      | SelfDone \<Rightarrow>
          (case Queue_task_done (w_workq s) of
             Inl e \<Rightarrow> Some (set_worker i (Crashed e) s)
           | Inr q' \<Rightarrow> Some (set_worker i OuterRelease (s\<lparr>w_workq := q'\<rparr>)))
      | OuterRelease \<Rightarrow>
          Some (set_worker i OuterDone (s\<lparr>w_workq := task_done_unlock (w_workq s)\<rparr>))
      | OuterDone \<Rightarrow>
          (case Queue_task_done (w_workq s) of
             Inl e \<Rightarrow> Some (set_worker i (Crashed e) s)
           | Inr q' \<Rightarrow> Some (set_worker i Fetch (s\<lparr>w_workq := q'\<rparr>)))
      | Exited \<Rightarrow> None
      | Crashed e \<Rightarrow> None
      | CrashedSelf e \<Rightarrow> None)"

text \<open>
  The loops of \<open>end_workers\<close>: \<open>for i in range(len(self.w_workers))\<close>, first around
  \<open>put(None)\<close>, then around the join of thread \<open>i\<close>.
\<close>

definition end_loop :: "nat \<Rightarrow> ('f, 'a) pool \<Rightarrow> 'a mstate" where
  "end_loop i s = (if i < length (w_workers s) then EndAcquire i else EndJoin)"

definition join_loop :: "nat \<Rightarrow> ('f, 'a) pool \<Rightarrow> 'a mstate" where
  "join_loop i s = (if i < length (w_workers s) then EndJoinThread i else MIdle)"

text \<open>\<open>Thread.join()\<close> returns once the thread has ended, by \<open>break\<close> or by exception.\<close>

fun finished :: "'a wstate \<Rightarrow> bool" where
  "finished Exited = True"
| "finished (Crashed e) = True"
| "finished (CrashedSelf e) = True"
| "finished _ = False"

definition enqueue :: "'a item \<Rightarrow> ('f, 'a) pool \<Rightarrow> ('f, 'a) pool option" where
  "enqueue it s =
     (case Queue_put (w_workq s) it of
        None \<Rightarrow> None
      | Some q' \<Rightarrow> Some (s\<lparr>w_workq := q', put_log := put_log s @ [it]\<rparr>))"

definition main_step :: "('f, 'a) pool \<Rightarrow> ('f, 'a) pool option" where
  "main_step s =
     (case main s of
        MIdle \<Rightarrow>
          (case script s of
             [] \<Rightarrow> None
           | Wenque it # cs \<Rightarrow> Some (s\<lparr>main := WenqueAcquire it, script := cs\<rparr>)
           | EndWorkers # cs \<Rightarrow> Some (s\<lparr>main := end_loop 0 s, script := cs\<rparr>))
      | WenqueAcquire it \<Rightarrow>
          (case put_lock (w_workq s) of
             None \<Rightarrow> None
           | Some q' \<Rightarrow> Some (s\<lparr>w_workq := q', main := WenqueEnqueue it\<rparr>))
      | WenqueEnqueue it \<Rightarrow>
          (case enqueue it s of
             None \<Rightarrow> None
           | Some s' \<Rightarrow> Some (s'\<lparr>main := MIdle\<rparr>))
      | EndAcquire i \<Rightarrow>
          (case put_lock (w_workq s) of
             None \<Rightarrow> None
           | Some q' \<Rightarrow> Some (s\<lparr>w_workq := q', main := EndEnqueue i\<rparr>))
      | EndEnqueue i \<Rightarrow>
          (case enqueue PyNone s of
             None \<Rightarrow> None
           | Some s' \<Rightarrow> Some (s'\<lparr>main := end_loop (Suc i) s\<rparr>))
      | EndJoin \<Rightarrow>
          (if Queue_join (w_workq s) then Some (s\<lparr>main := join_loop 0 s\<rparr>) else None)
      | EndJoinThread i \<Rightarrow>
          (if length (w_workers s) \<le> i then Some (s\<lparr>main := MRaised IndexError\<rparr>)
           else if finished (w_workers s ! i) then Some (s\<lparr>main := join_loop (Suc i) s\<rparr>)
           else None)
      | MRaised e \<Rightarrow> None)"

text \<open>Schedules: which thread takes the next step.\<close>

datatype tid = Main | Worker nat

fun step :: "('f \<Rightarrow> 'a item \<Rightarrow> bool) \<Rightarrow> tid \<Rightarrow> ('f, 'a) pool \<Rightarrow> ('f, 'a) pool option" where
  "step raises Main s = main_step s"
| "step raises (Worker i) s = worker_step raises i s"

fun run :: "('f \<Rightarrow> 'a item \<Rightarrow> bool) \<Rightarrow> tid list \<Rightarrow> ('f, 'a) pool \<Rightarrow> ('f, 'a) pool option" where
  "run raises [] s = Some s"
| "run raises (t # ts) s =
     (case step raises t s of None \<Rightarrow> None | Some s' \<Rightarrow> run raises ts s')"

subsection \<open>Counting threads\<close>

text \<open>
  \<open>wsum f ws\<close> adds up \<open>f\<close> over the threads of the pool: \<open>f\<close> tells how much a
  thread at a program point counts for.
\<close>

definition wsum :: "('a wstate \<Rightarrow> nat) \<Rightarrow> 'a wstate list \<Rightarrow> nat" where
  "wsum f ws = sum_list (map f ws)"

text \<open>The threads inside the handler call of line 66.\<close>

fun executing :: "'a wstate \<Rightarrow> nat" where
  "executing (Call a wi) = 1"
| "executing (CallSelf wi) = 1"
| "executing _ = 0"

text \<open>
  The permits of the pool's semaphore that a thread holds: one for each item it has taken
  off \<open>w_workq\<close> and not yet run the release of \<open>task_done\<close> for. A thread that an
  exception ended never runs it. A thread whose \<open>wq\<close> is the pool's own queue has taken
  a second item at line 65.
\<close>

fun holds_permit :: "'a wstate \<Rightarrow> nat" where
  "holds_permit Fetch = 0"
| "holds_permit SentinelDone = 0"
| "holds_permit SentinelBreak = 0"
| "holds_permit OuterDone = 0"
| "holds_permit Exited = 0"
| "holds_permit (CallSelf wi) = 2"
| "holds_permit SelfRelease = 2"
| "holds_permit (CrashedSelf e) = 2"
| "holds_permit _ = 1"

text \<open>
  The items a thread has taken off \<open>w_workq\<close> and not yet run \<open>Queue.task_done\<close>
  for.
\<close>

fun unacked :: "'a wstate \<Rightarrow> nat" where
  "unacked Fetch = 0"
| "unacked SentinelBreak = 0"
| "unacked Exited = 0"
| "unacked (CallSelf wi) = 2"
| "unacked SelfRelease = 2"
| "unacked SelfDone = 2"
| "unacked (CrashedSelf e) = 2"
| "unacked _ = 1"

text \<open>The owner holds a permit between the two steps of \<open>WorkQ.put\<close>.\<close>

fun main_permit :: "'a mstate \<Rightarrow> nat" where
  "main_permit (WenqueEnqueue it) = 1"
| "main_permit (EndEnqueue i) = 1"
| "main_permit _ = 0"

text \<open>
  The two accounting invariants of the pool's queue: where the permits of the semaphore
  are, and what \<open>unfinished_tasks\<close> counts.
\<close>

definition limiter_inv :: "('f, 'a) pool \<Rightarrow> bool" where
  "limiter_inv s =
     (\<not> lock_req (w_workq s) \<or>
      semaphore (w_workq s) + length (queue (w_workq s)) + wsum holds_permit (w_workers s)
        + main_permit (main s) = maxsize (w_workq s))"

definition unfinished_inv :: "('f, 'a) pool \<Rightarrow> bool" where
  "unfinished_inv s =
     (unfinished_tasks (w_workq s) = length (queue (w_workq s)) + wsum unacked (w_workers s))"

definition acct_inv :: "('f, 'a) pool \<Rightarrow> bool" where
  "acct_inv s = (limiter_inv s \<and> unfinished_inv s)"

text \<open>What no step changes: the number of threads, and the bound and mode of the queue.\<close>

definition shape :: "('f, 'a) pool \<Rightarrow> nat \<times> nat \<times> bool" where
  "shape s = (length (w_workers s), maxsize (w_workq s), lock_req (w_workq s))"

subsection \<open>Observing runs\<close>

text \<open>
  \<open>set_func g\<close> replaces the handler that \<open>start_workers\<close> stored on the pool's
  queue; \<open>run_pool\<close> runs a schedule on what \<open>start_workers\<close> returned.
\<close>

definition set_func :: "'f \<Rightarrow> ('f, 'a) pool \<Rightarrow> ('f, 'a) pool" where
  "set_func g s = s\<lparr>w_workq := (w_workq s)\<lparr>func := g\<rparr>\<rparr>"

definition run_pool ::
  "('f \<Rightarrow> 'a item \<Rightarrow> bool) \<Rightarrow> tid list \<Rightarrow> error + ('f, 'a) pool \<Rightarrow> ('f, 'a) pool option" where
  "run_pool raises sched p = (case p of Inl e \<Rightarrow> None | Inr s \<Rightarrow> run raises sched s)"

text \<open>
  Concrete inputs: \<open>demo_inner\<close> is \<open>WorkQ(handler, 0)\<close> after \<open>put(7)\<close>, and every
  address of \<open>demo_heap\<close> holds one; a handler that never raises, and one that always
  does.
\<close>

definition demo_inner :: "(string, nat item) workq" where
  "demo_inner = \<lparr>lock_req = False, func = ''handler'', semaphore = 0, maxsize = 0,
                  queue = [Obj 7], unfinished_tasks = 1\<rparr>"

definition demo_heap :: "addr \<Rightarrow> (string, nat item) workq" where
  "demo_heap a = demo_inner"

definition never_raises :: "string \<Rightarrow> nat item \<Rightarrow> bool" where
  "never_raises f x = False"

definition always_raises :: "string \<Rightarrow> nat item \<Rightarrow> bool" where
  "always_raises f x = True"

subsection \<open>Accounting for submitted tasks\<close>

text \<open>
  The items of a list that are tasks, that is, not \<open>None\<close>.
\<close>

definition tasks :: "'a item list \<Rightarrow> nat" where
  "tasks xs = length (filter (\<lambda>it. it \<noteq> PyNone) xs)"

text \<open>
  The tasks a thread holds for which no call is logged yet: the item it took at line 61
  while it is before its call of line 66 or has ended before it, and, when \<open>wq\<close> is the
  pool's own queue, the item it took at line 65 as well. The threads that the handler's
  exception ended. The logged calls that raised.
\<close>

fun before_call :: "'a wstate \<Rightarrow> nat" where
  "before_call (InnerFetch it) = 1"
| "before_call (Call a wi) = 1"
| "before_call (CallSelf wi) = (if wi = PyNone then 1 else 2)"
| "before_call CallPlain = 1"
| "before_call (Crashed AttributeError) = 1"
| "before_call (Crashed TypeError) = 1"
| "before_call _ = 0"

fun handler_crash :: "'a wstate \<Rightarrow> nat" where
  "handler_crash (Crashed HandlerError) = 1"
| "handler_crash (CrashedSelf HandlerError) = 1"
| "handler_crash _ = 0"

definition raised_calls :: "('f \<Rightarrow> 'a \<Rightarrow> bool) \<Rightarrow> ('f \<times> 'a) list \<Rightarrow> nat" where
  "raised_calls raises cs = length (filter (\<lambda>(g, x). raises g x) cs)"

text \<open>
  Every task that was enqueued is in the queue, or with a thread that has not made its
  call, or accounted for by a logged call: a call of a stored queue's \<open>func\<close> accounts
  for the item that referred to the queue, a call of the pool's own \<open>func\<close> for the
  reference to the pool's queue and for the item it was called on. And every call that
  raised ended a thread.
\<close>

definition tasks_inv :: "('f \<Rightarrow> 'a item \<Rightarrow> bool) \<Rightarrow> ('f, 'a) pool \<Rightarrow> bool" where
  "tasks_inv raises s =
     (tasks (put_log s)
        = tasks (queue (w_workq s)) + wsum before_call (w_workers s) + length (calls s)
          + length (pool_calls s) + tasks (map snd (pool_calls s))
      \<and> raised_calls raises (calls s) + raised_calls raises (pool_calls s)
          = wsum handler_crash (w_workers s))"




text \<open>The loop indices of \<open>end_workers\<close> stay below the number of threads.\<close>

fun main_ok :: "nat \<Rightarrow> 'a mstate \<Rightarrow> bool" where
  "main_ok n (EndAcquire i) = (i < n)"
| "main_ok n (EndEnqueue i) = (i < n)"
| "main_ok n (EndJoinThread i) = (i < n)"
| "main_ok n (MRaised e) = False"
| "main_ok n _ = True"

text \<open>
  A script that submits and then calls \<open>end_workers\<close> once; the program points of
  \<open>end_workers\<close> after its \<open>join()\<close> of the queue, and the state between calls.
\<close>

fun ends_with_shutdown :: "'a call list \<Rightarrow> bool" where
  "ends_with_shutdown [] = False"
| "ends_with_shutdown (Wenque it # cs) = ends_with_shutdown cs"
| "ends_with_shutdown (EndWorkers # cs) = (cs = [])"


text \<open>
  While \<open>end_workers\<close> joins the threads, round \<open>i\<close>: the queue's counter is 0 and the
  threads before \<open>i\<close> have ended after their \<open>break\<close>.
\<close>

definition joined_upto :: "nat \<Rightarrow> ('f, 'a) pool \<Rightarrow> bool" where
  "joined_upto i s =
     (unfinished_tasks (w_workq s) = 0 \<and> list_all (\<lambda>w. w = Exited) (take i (w_workers s)))"

definition phase_inv :: "('f, 'a) pool \<Rightarrow> bool" where
  "phase_inv s =
     (case main s of
        MIdle \<Rightarrow>
          if script s = [] then joined_upto (length (w_workers s)) s
          else ends_with_shutdown (script s)
      | WenqueAcquire it \<Rightarrow> ends_with_shutdown (script s)
      | WenqueEnqueue it \<Rightarrow> ends_with_shutdown (script s)
      | EndJoinThread i \<Rightarrow> script s = [] \<and> joined_upto i s
      | MRaised e \<Rightarrow> False
      | _ \<Rightarrow> script s = [])"

definition shutdown_inv :: "('f \<Rightarrow> 'a item \<Rightarrow> bool) \<Rightarrow> ('f, 'a) pool \<Rightarrow> bool" where
  "shutdown_inv raises s =
     (acct_inv s \<and> tasks_inv raises s \<and> phase_inv s \<and> main_ok (length (w_workers s)) (main s))"

subsection \<open>The pool's own queue as an item\<close>

text \<open>
  The program points of a thread whose \<open>wq\<close> is the pool's own queue, the program points
  of the owner while it submits that queue, and the states in which the pool's queue was
  never submitted to itself and is not going to be.
\<close>

fun self_point :: "'a wstate \<Rightarrow> bool" where
  "self_point (InnerFetch it) = (it = Self)"
| "self_point (CallSelf wi) = True"
| "self_point SelfRelease = True"
| "self_point SelfDone = True"
| "self_point (CrashedSelf e) = True"
| "self_point _ = False"

fun submits_self :: "'a mstate \<Rightarrow> bool" where
  "submits_self (WenqueAcquire it) = (it = Self)"
| "submits_self (WenqueEnqueue it) = (it = Self)"
| "submits_self _ = False"

definition no_self :: "('f, 'a) pool \<Rightarrow> bool" where
  "no_self s =
     (Self \<notin> set (queue (w_workq s)) \<and> list_all (\<lambda>w. \<not> self_point w) (w_workers s)
      \<and> \<not> submits_self (main s) \<and> Wenque Self \<notin> set (script s))"

subsection \<open>The queues of the store\<close>

text \<open>
  The elements a thread has taken off the queue at address \<open>a\<close> of the store and not
  yet run \<open>Queue.task_done\<close> for. A queue counts every element that was put into it
  until it is acknowledged, so its counter is at least the elements it holds and those
  taken and not yet acknowledged.
\<close>

fun inner_unacked :: "addr \<Rightarrow> 'a wstate \<Rightarrow> nat" where
  "inner_unacked a (Call b wi) = (if a = b then 1 else 0)"
| "inner_unacked a (InnerRelease b) = (if a = b then 1 else 0)"
| "inner_unacked a (InnerDone b) = (if a = b then 1 else 0)"
| "inner_unacked a _ = 0"

definition inner_inv :: "addr \<Rightarrow> ('f, 'a) pool \<Rightarrow> bool" where
  "inner_inv a s =
     (length (queue (heap s a)) + wsum (inner_unacked a) (w_workers s)
        \<le> unfinished_tasks (heap s a))"

subsection \<open>Capacity, and a pool that was shut down\<close>

text \<open>The bound of the queue and the number of threads that \<open>start_workers\<close> set up.\<close>

definition capacity :: "error + ('f, 'a) pool \<Rightarrow> nat option" where
  "capacity p = (case p of Inl e \<Rightarrow> None | Inr s \<Rightarrow> Some (maxsize (w_workq s)))"

definition worker_count :: "error + ('f, 'a) pool \<Rightarrow> nat option" where
  "worker_count p = (case p of Inl e \<Rightarrow> None | Inr s \<Rightarrow> Some (length (w_workers s)))"

text \<open>
  A pool after \<open>end_workers\<close> has returned: the owner is between calls, the queue is
  empty and acknowledged, every permit of its semaphore is free, every thread has ended
  after its \<open>break\<close>.
\<close>

definition shut_down :: "('f, 'a) pool \<Rightarrow> bool" where
  "shut_down s =
     (main s = MIdle \<and> queue (w_workq s) = [] \<and> unfinished_tasks (w_workq s) = 0
      \<and> list_all (\<lambda>w. w = Exited) (w_workers s)
      \<and> lock_req (w_workq s) \<and> maxsize (w_workq s) = length (w_workers s)
      \<and> semaphore (w_workq s) = length (w_workers s))"

text \<open>
  A second \<open>end_workers\<close> on such a pool, after \<open>k\<close> rounds of line 75 with \<open>c\<close>
  permits left: \<open>k\<close> more \<open>None\<close> are in the queue and in the log, which was \<open>pl\<close>
  when the call began, and none is acknowledged. The invariant follows the owner through
  the rounds; \<open>steps_left\<close> counts its steps up to the \<open>join()\<close> of line 76.
\<close>

definition rounds :: "nat \<Rightarrow> nat \<Rightarrow> 'a item list \<Rightarrow> ('f, 'a) pool \<Rightarrow> bool" where
  "rounds k c pl s =
     (semaphore (w_workq s) = c \<and> queue (w_workq s) = replicate k PyNone
      \<and> unfinished_tasks (w_workq s) = k \<and> put_log s = pl @ replicate k PyNone)"

definition hang_inv :: "'a item list \<Rightarrow> ('f, 'a) pool \<Rightarrow> bool" where
  "hang_inv pl s =
     (list_all (\<lambda>w. w = Exited) (w_workers s) \<and> w_workers s \<noteq> []
      \<and> lock_req (w_workq s) \<and> maxsize (w_workq s) = length (w_workers s) \<and>
      (case main s of
         MIdle \<Rightarrow> script s = [EndWorkers] \<and> rounds 0 (length (w_workers s)) pl s
       | EndAcquire i \<Rightarrow>
           script s = [] \<and> i < length (w_workers s) \<and> rounds i (length (w_workers s) - i) pl s
       | EndEnqueue i \<Rightarrow>
           script s = [] \<and> i < length (w_workers s)
           \<and> rounds i (length (w_workers s) - Suc i) pl s
       | EndJoin \<Rightarrow> script s = [] \<and> rounds (length (w_workers s)) 0 pl s
       | _ \<Rightarrow> False))"

fun steps_left :: "nat \<Rightarrow> 'a mstate \<Rightarrow> nat" where
  "steps_left n MIdle = 2 * n + 1"
| "steps_left n (EndAcquire i) = 2 * (n - i)"
| "steps_left n (EndEnqueue i) = 2 * (n - i) - 1"
| "steps_left n _ = 0"

section \<open>The scenario test_ios_during_data_kpods_down_safe\<close>

text \<open>
  The test of tests/ha/multi_pod_failure starts background threads that run I/O and report
  through \<open>multiprocessing.Queue\<close>s, takes pods down, and then reads the reports and
  asserts on them. The fault window is the \<open>threading.Event\<close> of line 406.
\<close>

subsection \<open>Waiting for a report\<close>

text \<open>
  What one \<open>get(timeout=...)\<close> on an output queue does: it returns the next message, or
  raises \<open>queue.Empty\<close> when none arrives in time.
\<close>

datatype 'm got = Arrived 'm | TimedOut

text \<open>
  The loop of lines 426 to 428 and 556 to 558,
  \<open>while len(resp) != k: resp = output.get(timeout=...)\<close>, on the outcomes of its
  successive \<open>get\<close>s. A message is the list of its components, \<open>cur\<close> is the value of
  \<open>resp\<close>, and \<open>None\<close> says that the loop is still waiting when the listed outcomes
  are used up. Nothing in the test catches \<open>queue.Empty\<close>.
\<close>

fun poll :: "nat \<Rightarrow> 'x list \<Rightarrow> 'x list got list \<Rightarrow> (error + 'x list) option" where
  "poll k cur [] = (if length cur = k then Some (Inr cur) else None)"
| "poll k cur (TimedOut # rest) = (if length cur = k then Some (Inr cur) else Some (Inl Empty))"
| "poll k cur (Arrived m # rest) = (if length cur = k then Some (Inr cur) else poll k m rest)"

text \<open>The loop starts from the empty \<open>tuple()\<close> of line 426 or \<open>dict()\<close> of line 556.\<close>

definition await_report :: "nat \<Rightarrow> 'x list got list \<Rightarrow> (error + 'x list) option" where
  "await_report k outs = poll k [] outs"

text \<open>The outcomes that end the loop: a timeout, or a message of length \<open>k\<close>.\<close>

fun decisive :: "nat \<Rightarrow> 'x list got \<Rightarrow> bool" where
  "decisive k TimedOut = True"
| "decisive k (Arrived m) = (length m = k)"

text \<open>
  The specification's wording of the same operation, for comparison:
  \<open>await_report(expected_message_count, timeout)\<close> returns once that many messages have
  arrived, whatever their length, and fails on a timeout before that.
\<close>

fun spec_await_report :: "nat \<Rightarrow> 'm list \<Rightarrow> 'm got list \<Rightarrow> (error + 'm list) option" where
  "spec_await_report n acc [] = (if length acc = n then Some (Inr acc) else None)"
| "spec_await_report n acc (TimedOut # rest) =
     (if length acc = n then Some (Inr acc) else Some (Inl Empty))"
| "spec_await_report n acc (Arrived m # rest) =
     (if length acc = n then Some (Inr acc) else spec_await_report n (acc @ [m]) rest)"

subsection \<open>The fault window\<close>

text \<open>
  \<open>threading.Event\<close>: a flag, cleared at construction; \<open>set()\<close> and \<open>clear()\<close>
  assign it and raise nothing. A sequence of window signals is run in order, and would stop
  at the first error.
\<close>

record event =
  flag :: bool

definition Event :: event where
  "Event = \<lparr>flag = False\<rparr>"

definition event_set :: "event \<Rightarrow> error + event" where
  "event_set e = Inr (e\<lparr>flag := True\<rparr>)"

definition event_clear :: "event \<Rightarrow> error + event" where
  "event_clear e = Inr (e\<lparr>flag := False\<rparr>)"

definition is_set :: "event \<Rightarrow> bool" where
  "is_set e = flag e"

datatype signal = SignalOpen | SignalClose

fun signals :: "signal list \<Rightarrow> event \<Rightarrow> error + event" where
  "signals [] e = Inr e"
| "signals (SignalOpen # ss) e =
     (case event_set e of Inl x \<Rightarrow> Inl x | Inr e' \<Rightarrow> signals ss e')"
| "signals (SignalClose # ss) e =
     (case event_clear e of Inl x \<Rightarrow> Inl x | Inr e' \<Rightarrow> signals ss e')"

section \<open>Properties\<close>

lemma worker_step_cases [consumes 1, case_names fetch_sentinel fetch_item sentinel_release
    sentinel_done sentinel_crash sentinel_break inner_fetch self_fetch plain_fetch dict_item
    no_get none_item call_returns call_raises self_call_returns self_call_raises plain_call
    inner_release inner_done inner_crash self_release self_done self_crash outer_release
    outer_done outer_crash]:
  assumes "worker_step r i s = Some s'"
  obtains
    (fetch_sentinel) q' where "i < length (w_workers s)" "w_workers s ! i = Fetch"
      "Queue_get (w_workq s) = Some (PyNone, q')"
      "s' = set_worker i SentinelRelease (s\<lparr>w_workq := q'\<rparr>)"
  | (fetch_item) it q' where "i < length (w_workers s)" "w_workers s ! i = Fetch"
      "Queue_get (w_workq s) = Some (it, q')" "it \<noteq> PyNone"
      "s' = set_worker i (InnerFetch it) (s\<lparr>w_workq := q'\<rparr>)"
  | (sentinel_release) "i < length (w_workers s)" "w_workers s ! i = SentinelRelease"
      "s' = set_worker i SentinelDone (s\<lparr>w_workq := task_done_unlock (w_workq s)\<rparr>)"
  | (sentinel_done) q' where "i < length (w_workers s)" "w_workers s ! i = SentinelDone"
      "Queue_task_done (w_workq s) = Inr q'"
      "s' = set_worker i SentinelBreak (s\<lparr>w_workq := q'\<rparr>)"
  | (sentinel_crash) e where "i < length (w_workers s)" "w_workers s ! i = SentinelDone"
      "Queue_task_done (w_workq s) = Inl e" "s' = set_worker i (Crashed e) s"
  | (sentinel_break) "i < length (w_workers s)" "w_workers s ! i = SentinelBreak"
      "s' = set_worker i Exited s"
  | (inner_fetch) a wi q' where "i < length (w_workers s)" "w_workers s ! i = InnerFetch (QRef a)"
      "Queue_get (heap s a) = Some (wi, q')"
      "s' = set_worker i (Call a wi) (s\<lparr>heap := (heap s)(a := q')\<rparr>)"
  | (self_fetch) wi q' where "i < length (w_workers s)" "w_workers s ! i = InnerFetch Self"
      "Queue_get (w_workq s) = Some (wi, q')"
      "s' = set_worker i (CallSelf wi) (s\<lparr>w_workq := q'\<rparr>)"
  | (plain_fetch) a wi q' where "i < length (w_workers s)"
      "w_workers s ! i = InnerFetch (PlainQ a)" "Queue_get (heap s a) = Some (wi, q')"
      "s' = set_worker i CallPlain (s\<lparr>heap := (heap s)(a := q')\<rparr>)"
  | (dict_item) x where "i < length (w_workers s)" "w_workers s ! i = InnerFetch (Dict x)"
      "s' = set_worker i (Crashed TypeError) s"
  | (no_get) x where "i < length (w_workers s)" "w_workers s ! i = InnerFetch (Obj x)"
      "s' = set_worker i (Crashed AttributeError) s"
  | (none_item) "i < length (w_workers s)" "w_workers s ! i = InnerFetch PyNone"
      "s' = set_worker i (Crashed AttributeError) s"
  | (call_returns) a wi where "i < length (w_workers s)" "w_workers s ! i = Call a wi"
      "\<not> r (func (heap s a)) wi"
      "s' = set_worker i (InnerRelease a) (s\<lparr>calls := calls s @ [(func (heap s a), wi)]\<rparr>)"
  | (call_raises) a wi where "i < length (w_workers s)" "w_workers s ! i = Call a wi"
      "r (func (heap s a)) wi"
      "s' = set_worker i (Crashed HandlerError) (s\<lparr>calls := calls s @ [(func (heap s a), wi)]\<rparr>)"
  | (self_call_returns) wi where "i < length (w_workers s)" "w_workers s ! i = CallSelf wi"
      "\<not> r (func (w_workq s)) wi"
      "s' = set_worker i SelfRelease
              (s\<lparr>pool_calls := pool_calls s @ [(func (w_workq s), wi)]\<rparr>)"
  | (self_call_raises) wi where "i < length (w_workers s)" "w_workers s ! i = CallSelf wi"
      "r (func (w_workq s)) wi"
      "s' = set_worker i (CrashedSelf HandlerError)
              (s\<lparr>pool_calls := pool_calls s @ [(func (w_workq s), wi)]\<rparr>)"
  | (plain_call) "i < length (w_workers s)" "w_workers s ! i = CallPlain"
      "s' = set_worker i (Crashed AttributeError) s"
  | (inner_release) a where "i < length (w_workers s)" "w_workers s ! i = InnerRelease a"
      "s' = set_worker i (InnerDone a) (s\<lparr>heap := (heap s)(a := task_done_unlock (heap s a))\<rparr>)"
  | (inner_done) a q' where "i < length (w_workers s)" "w_workers s ! i = InnerDone a"
      "Queue_task_done (heap s a) = Inr q'"
      "s' = set_worker i OuterRelease (s\<lparr>heap := (heap s)(a := q')\<rparr>)"
  | (inner_crash) a e where "i < length (w_workers s)" "w_workers s ! i = InnerDone a"
      "Queue_task_done (heap s a) = Inl e" "s' = set_worker i (Crashed e) s"
  | (self_release) "i < length (w_workers s)" "w_workers s ! i = SelfRelease"
      "s' = set_worker i SelfDone (s\<lparr>w_workq := task_done_unlock (w_workq s)\<rparr>)"
  | (self_done) q' where "i < length (w_workers s)" "w_workers s ! i = SelfDone"
      "Queue_task_done (w_workq s) = Inr q'"
      "s' = set_worker i OuterRelease (s\<lparr>w_workq := q'\<rparr>)"
  | (self_crash) e where "i < length (w_workers s)" "w_workers s ! i = SelfDone"
      "Queue_task_done (w_workq s) = Inl e" "s' = set_worker i (Crashed e) s"
  | (outer_release) "i < length (w_workers s)" "w_workers s ! i = OuterRelease"
      "s' = set_worker i OuterDone (s\<lparr>w_workq := task_done_unlock (w_workq s)\<rparr>)"
  | (outer_done) q' where "i < length (w_workers s)" "w_workers s ! i = OuterDone"
      "Queue_task_done (w_workq s) = Inr q'" "s' = set_worker i Fetch (s\<lparr>w_workq := q'\<rparr>)"
  | (outer_crash) e where "i < length (w_workers s)" "w_workers s ! i = OuterDone"
      "Queue_task_done (w_workq s) = Inl e" "s' = set_worker i (Crashed e) s"
proof -
  have i: "i < length (w_workers s)"
    using assms by (simp add: worker_step_def split: if_splits)
  show thesis
  proof (cases "w_workers s ! i")
    case Fetch
    then show ?thesis using assms i fetch_sentinel fetch_item
      by (auto simp: worker_step_def split: option.splits if_splits)
  next
    case SentinelRelease
    then show ?thesis using assms i sentinel_release by (simp add: worker_step_def)
  next
    case SentinelDone
    then show ?thesis using assms i sentinel_done sentinel_crash
      by (auto simp: worker_step_def split: sum.splits)
  next
    case SentinelBreak
    then show ?thesis using assms i sentinel_break by (simp add: worker_step_def)
  next
    case (InnerFetch it)
    then show ?thesis
      using assms i inner_fetch [of _ _ _] self_fetch [of _ _] plain_fetch [of _ _ _]
        dict_item [of _] no_get [of _] none_item
      by (cases it) (auto simp: worker_step_def split: option.splits)
  next
    case (Call a wi)
    then show ?thesis using assms i call_returns [of a wi] call_raises [of a wi]
      by (cases "r (func (heap s a)) wi") (auto simp: worker_step_def)
  next
    case (CallSelf wi)
    then show ?thesis using assms i self_call_returns [of wi] self_call_raises [of wi]
      by (cases "r (func (w_workq s)) wi") (auto simp: worker_step_def)
  next
    case CallPlain
    then show ?thesis using assms i plain_call by (simp add: worker_step_def)
  next
    case (InnerRelease a)
    then show ?thesis using assms i inner_release by (simp add: worker_step_def)
  next
    case (InnerDone a)
    then show ?thesis using assms i inner_done inner_crash
      by (auto simp: worker_step_def split: sum.splits)
  next
    case SelfRelease
    then show ?thesis using assms i self_release by (simp add: worker_step_def)
  next
    case SelfDone
    then show ?thesis using assms i self_done self_crash
      by (auto simp: worker_step_def split: sum.splits)
  next
    case OuterRelease
    then show ?thesis using assms i outer_release by (simp add: worker_step_def)
  next
    case OuterDone
    then show ?thesis using assms i outer_done outer_crash
      by (auto simp: worker_step_def split: sum.splits)
  next
    case Exited
    then show ?thesis using assms i by (simp add: worker_step_def)
  next
    case (Crashed e)
    then show ?thesis using assms i by (simp add: worker_step_def)
  next
    case (CrashedSelf e)
    then show ?thesis using assms i by (simp add: worker_step_def)
  qed
qed

lemma main_step_cases [consumes 1, case_names call_wenque call_end wenque_acquire wenque_enqueue
    end_acquire end_enqueue end_join join_index_error join_thread]:
  assumes "main_step s = Some s'"
  obtains
    (call_wenque) it cs where "main s = MIdle" "script s = Wenque it # cs"
      "s' = s\<lparr>main := WenqueAcquire it, script := cs\<rparr>"
  | (call_end) cs where "main s = MIdle" "script s = EndWorkers # cs"
      "s' = s\<lparr>main := end_loop 0 s, script := cs\<rparr>"
  | (wenque_acquire) it q' where "main s = WenqueAcquire it" "put_lock (w_workq s) = Some q'"
      "s' = s\<lparr>w_workq := q', main := WenqueEnqueue it\<rparr>"
  | (wenque_enqueue) it q' where "main s = WenqueEnqueue it" "Queue_put (w_workq s) it = Some q'"
      "s' = s\<lparr>w_workq := q', put_log := put_log s @ [it], main := MIdle\<rparr>"
  | (end_acquire) i q' where "main s = EndAcquire i" "put_lock (w_workq s) = Some q'"
      "s' = s\<lparr>w_workq := q', main := EndEnqueue i\<rparr>"
  | (end_enqueue) i q' where "main s = EndEnqueue i" "Queue_put (w_workq s) PyNone = Some q'"
      "s' = s\<lparr>w_workq := q', put_log := put_log s @ [PyNone], main := end_loop (Suc i) s\<rparr>"
  | (end_join) "main s = EndJoin" "unfinished_tasks (w_workq s) = 0"
      "s' = s\<lparr>main := join_loop 0 s\<rparr>"
  | (join_index_error) i where "main s = EndJoinThread i" "length (w_workers s) \<le> i"
      "s' = s\<lparr>main := MRaised IndexError\<rparr>"
  | (join_thread) i where "main s = EndJoinThread i" "i < length (w_workers s)"
      "finished (w_workers s ! i)" "s' = s\<lparr>main := join_loop (Suc i) s\<rparr>"
proof (cases "main s")
  case MIdle
  then show ?thesis using assms call_wenque call_end
    by (auto simp: main_step_def split: list.splits call.splits)
next
  case (WenqueAcquire it)
  then show ?thesis using assms wenque_acquire
    by (auto simp: main_step_def split: option.splits)
next
  case (WenqueEnqueue it)
  then show ?thesis using assms wenque_enqueue
    by (auto simp: main_step_def enqueue_def split: option.splits)
next
  case (EndAcquire i)
  then show ?thesis using assms end_acquire
    by (auto simp: main_step_def split: option.splits)
next
  case (EndEnqueue i)
  then show ?thesis using assms end_enqueue
    by (auto simp: main_step_def enqueue_def end_loop_def split: option.splits)
next
  case EndJoin
  then show ?thesis using assms end_join
    by (auto simp: main_step_def Queue_join_def split: if_splits)
next
  case (EndJoinThread i)
  then show ?thesis using assms join_index_error join_thread
    by (auto simp: main_step_def split: if_splits)
next
  case (MRaised e)
  then show ?thesis using assms by (simp add: main_step_def)
qed

lemma wsum_split:
  "i < length ws \<Longrightarrow> wsum f ws = wsum f (take i ws) + f (ws ! i) + wsum f (drop (Suc i) ws)"
  unfolding wsum_def
  by (subst id_take_nth_drop [of i ws]) simp_all

lemma wsum_update:
  "i < length ws \<Longrightarrow> wsum f (ws[i := w]) = wsum f (take i ws) + f w + wsum f (drop (Suc i) ws)"
  unfolding wsum_def by (simp add: upd_conv_take_nth_drop)

lemmas prim_defs = Queue_get_def Queue_put_def Queue_task_done_def
  put_lock_def task_done_unlock_def acquire_def release_def

lemma worker_step_bound: "worker_step r i s = Some s' \<Longrightarrow> i < length (w_workers s)"
  by (simp add: worker_step_def split: if_splits)

lemma unfinished_worker_step:
  assumes "worker_step r i s = Some s'" "unfinished_inv s"
  shows "unfinished_inv s'"
  using assms(1)
proof (cases rule: worker_step_cases)
qed (use assms(2) in \<open>auto simp: unfinished_inv_def set_worker_def wsum_update prim_defs
        dest!: wsum_split [where f = unacked] split: if_splits list.splits\<close>)

lemma unfinished_main_step:
  assumes "main_step s = Some s'" "unfinished_inv s"
  shows "unfinished_inv s'"
  using assms(1)
proof (cases rule: main_step_cases)
qed (use assms(2) in \<open>auto simp: unfinished_inv_def prim_defs split: if_splits\<close>)

lemma unacked_pos:
  assumes "unfinished_inv s" "i < length (w_workers s)" "unacked (w_workers s ! i) \<noteq> 0"
  shows "unfinished_tasks (w_workq s) \<noteq> 0"
  using assms wsum_split [OF assms(2), of unacked] by (simp add: unfinished_inv_def)

lemma limiter_worker_step:
  assumes "worker_step r i s = Some s'" "unfinished_inv s" "limiter_inv s"
  shows "limiter_inv s'"
  using assms(1)
proof (cases rule: worker_step_cases)
  case (sentinel_crash e)
  then show ?thesis using unacked_pos [OF assms(2), of i] by (simp add: Queue_task_done_def)
next
  case (outer_crash e)
  then show ?thesis using unacked_pos [OF assms(2), of i] by (simp add: Queue_task_done_def)
next
  case (self_crash e)
  then show ?thesis using unacked_pos [OF assms(2), of i] by (simp add: Queue_task_done_def)
qed (use assms(3) in \<open>auto simp: limiter_inv_def set_worker_def wsum_update prim_defs
        dest!: wsum_split [where f = holds_permit] split: if_splits list.splits\<close>)

lemma limiter_main_step:
  assumes "main_step s = Some s'" "limiter_inv s"
  shows "limiter_inv s'"
  using assms(1)
proof (cases rule: main_step_cases)
qed (use assms(2) in \<open>auto simp: limiter_inv_def prim_defs end_loop_def join_loop_def
        split: if_splits\<close>)

lemma shape_worker_step: "worker_step r i s = Some s' \<Longrightarrow> shape s' = shape s"
proof (cases rule: worker_step_cases, assumption)
qed (auto simp: shape_def set_worker_def prim_defs split: if_splits list.splits)

lemma shape_main_step: "main_step s = Some s' \<Longrightarrow> shape s' = shape s"
proof (cases rule: main_step_cases, assumption)
qed (auto simp: shape_def prim_defs split: if_splits)

lemma acct_step: "step r t s = Some s' \<Longrightarrow> acct_inv s \<Longrightarrow> acct_inv s'"
  by (cases t)
    (auto simp: acct_inv_def intro: limiter_main_step unfinished_main_step
      limiter_worker_step unfinished_worker_step)

lemma shape_step: "step r t s = Some s' \<Longrightarrow> shape s' = shape s"
  by (cases t) (auto intro: shape_main_step shape_worker_step)

lemma run_invariant:
  assumes "run r sched s = Some s'" "P s" "\<And>t u u'. step r t u = Some u' \<Longrightarrow> P u \<Longrightarrow> P u'"
  shows "P s'"
  using assms(1,2)
proof (induction sched arbitrary: s)
  case Nil
  then show ?case by simp
next
  case (Cons t ts)
  then show ?case by (auto split: option.splits dest: assms(3))
qed

lemma acct_run: "run r sched s = Some s' \<Longrightarrow> acct_inv s \<Longrightarrow> acct_inv s'"
  by (erule run_invariant) (auto intro: acct_step)

lemma shape_run: "run r sched s = Some s' \<Longrightarrow> shape s' = shape s"
  by (erule run_invariant [where P = "\<lambda>u. shape u = shape s"]) (auto dest: shape_step)

lemma wsum_replicate: "wsum f (replicate n w) = n * f w"
  by (simp add: wsum_def sum_list_replicate)

lemma start_workers_Inr:
  assumes "start_workers n f h cs = Inr s"
  shows "0 \<le> n"
    and "s = \<lparr>w_workq = \<lparr>lock_req = (n \<noteq> 0), func = f, semaphore = nat n, maxsize = nat n,
                          queue = [], unfinished_tasks = 0\<rparr>,
              w_workers = replicate (nat n) Fetch, heap = h, main = MIdle, script = cs,
              calls = [], pool_calls = [], put_log = []\<rparr>"
  using assms by (auto simp: start_workers_def WorkQ_def split: if_splits)

lemma start_workers_acct: "start_workers n f h cs = Inr s \<Longrightarrow> acct_inv s"
  by (drule start_workers_Inr(2))
    (simp add: acct_inv_def limiter_inv_def unfinished_inv_def wsum_replicate)

lemma start_workers_shape:
  "start_workers n f h cs = Inr s \<Longrightarrow> shape s = (nat n, nat n, n \<noteq> 0)"
  by (drule start_workers_Inr(2)) (simp add: shape_def)

lemma wsum_mono: "(\<And>w. f w \<le> g w) \<Longrightarrow> wsum f ws \<le> wsum g ws"
  unfolding wsum_def by (induction ws) (auto intro: add_mono)

lemma wsum_le_length:
  assumes "\<And>w. f w \<le> 1"
  shows "wsum f ws \<le> length ws"
proof (induction ws)
  case Nil
  then show ?case by (simp add: wsum_def)
next
  case (Cons w ws)
  then show ?case using assms [of w] by (simp add: wsum_def)
qed

lemma executing_le_permit: "executing w \<le> holds_permit w"
  by (cases w) simp_all

lemma executing_le_1: "executing w \<le> 1"
  by (cases w) simp_all


subsection \<open>Single threads\<close>

lemma finished_worker_step:
  assumes "worker_step r i s = Some s'" "finished (w_workers s ! j)"
  shows "w_workers s' ! j = w_workers s ! j"
  using assms(1)
proof (cases rule: worker_step_cases)
qed (use assms(2) in \<open>auto simp: set_worker_def nth_list_update\<close>)

lemma workers_main_step: "main_step s = Some s' \<Longrightarrow> w_workers s' = w_workers s"
proof (cases rule: main_step_cases, assumption)
qed auto

lemma finished_step:
  "step r t s = Some s' \<Longrightarrow> finished (w_workers s ! j) \<Longrightarrow> w_workers s' ! j = w_workers s ! j"
  by (cases t) (auto dest: workers_main_step finished_worker_step)

lemma finished_run:
  assumes "run r sched s = Some s'" "finished (w_workers s ! j)"
  shows "w_workers s' ! j = w_workers s ! j"
  using assms
proof (induction sched arbitrary: s)
  case Nil
  then show ?case by simp
next
  case (Cons t ts)
  then obtain u where u: "step r t s = Some u" "run r ts u = Some s'"
    by (auto split: option.splits)
  have "w_workers u ! j = w_workers s ! j" using u(1) Cons.prems(2) by (rule finished_step)
  then show ?case using Cons.IH [OF u(2)] Cons.prems(2) by simp
qed

lemma finished_no_step: "finished (w_workers s ! i) \<Longrightarrow> worker_step r i s = None"
  by (cases "w_workers s ! i") (simp_all add: worker_step_def)


lemmas eval_defs = start_workers_def WorkQ_def main_step_def worker_step_def set_worker_def
  enqueue_def end_loop_def join_loop_def Queue_join_def prim_defs

subsection \<open>One thread: exceptions, handlers, sentinels\<close>

text \<open>
  C2, amended. \<open>Workers.worker\<close> has no \<open>try\<close>: when the handler raises at line 66,
  the exception ends the thread. The step records the call and acknowledges neither queue,
  and whatever is scheduled afterwards, the thread stays ended and takes no further step.
\<close>

theorem handler_exception_ends_worker:
  assumes "i < length (w_workers s)" and "w_workers s ! i = Call a wi"
    and "raises (func (heap s a)) wi"
    and "run raises (Worker i # sched) s = Some s'"
  shows "worker_step raises i s =
           Some (set_worker i (Crashed HandlerError)
                   (s\<lparr>calls := calls s @ [(func (heap s a), wi)]\<rparr>))
       \<and> w_workers s' ! i = Crashed HandlerError
       \<and> worker_step raises i s' = None"
proof -
  let ?u = "set_worker i (Crashed HandlerError) (s\<lparr>calls := calls s @ [(func (heap s a), wi)]\<rparr>)"
  have st: "worker_step raises i s = Some ?u"
    using assms(1-3) by (simp add: worker_step_def)
  have u: "w_workers ?u ! i = Crashed HandlerError"
    using assms(1) by (simp add: set_worker_def)
  have "run raises sched ?u = Some s'" using assms(4) st by simp
  then have "w_workers s' ! i = w_workers ?u ! i"
    by (rule finished_run) (simp add: u)
  then have c: "w_workers s' ! i = Crashed HandlerError" using u by simp
  then have "worker_step raises i s' = None" by (simp add: finished_no_step)
  then show ?thesis using st c by simp
qed

text \<open>
  C2, witness: a pool of one thread, one submitted item, a handler that raises.
\<close>

theorem handler_exception_ends_worker_witness:
  "\<exists>s0 s s'. start_workers 1 ''outer'' demo_heap [Wenque (QRef 0)] = Inr s0
     \<and> run always_raises [Main, Main, Main, Worker 0, Worker 0] s0 = Some s
     \<and> 0 < length (w_workers s) \<and> w_workers s ! 0 = Call 0 (Obj 7)
     \<and> always_raises (func (heap s 0)) (Obj 7)
     \<and> run always_raises [Worker 0] s = Some s'
     \<and> w_workers s' ! 0 = Crashed HandlerError
     \<and> worker_step always_raises 0 s' = None"
proof -
  obtain s0 where s0: "start_workers 1 ''outer'' demo_heap [Wenque (QRef 0)] = Inr s0"
    by (simp add: start_workers_def WorkQ_def)
  note s0_eq = start_workers_Inr(2) [OF s0]
  obtain s where s: "run always_raises [Main, Main, Main, Worker 0, Worker 0] s0 = Some s"
    by (simp add: s0_eq eval_defs demo_inner_def demo_heap_def always_raises_def)
  have h: "0 < length (w_workers s)" "w_workers s ! 0 = Call 0 (Obj 7)"
    "always_raises (func (heap s 0)) (Obj 7)"
    using s by (auto simp: s0_eq eval_defs demo_inner_def demo_heap_def always_raises_def)
  obtain s' where s': "run always_raises [Worker 0] s = Some s'"
    using h by (simp add: worker_step_def)
  have "run always_raises (Worker 0 # []) s = Some s'" using s' by simp
  note handler_exception_ends_worker [OF h this]
  then show ?thesis using s0 s h s' by blast
qed

text \<open>
  C2, counterexample: one thread, two submissions of a task whose handler raises. After
  the first call the only thread has ended with the exception, and it cannot step again;
  the owner is blocked in the acquire of its second \<open>wenque\<close>, since the permit of the
  first task is never released.
\<close>

theorem handler_exception_counterexample:
  "map_option w_workers
     (run_pool always_raises [Main, Main, Main, Worker 0, Worker 0, Worker 0, Main]
        (start_workers 1 ''outer'' demo_heap [Wenque (QRef 0), Wenque (QRef 0)]))
     = Some [Crashed HandlerError]
   \<and> Option.bind
       (run_pool always_raises [Main, Main, Main, Worker 0, Worker 0, Worker 0, Main]
          (start_workers 1 ''outer'' demo_heap [Wenque (QRef 0), Wenque (QRef 0)]))
       (worker_step always_raises 0) = None
   \<and> map_option main
       (run_pool always_raises [Main, Main, Main, Worker 0, Worker 0, Worker 0, Main]
          (start_workers 1 ''outer'' demo_heap [Wenque (QRef 0), Wenque (QRef 0)]))
       = Some (WenqueAcquire (QRef 0))
   \<and> Option.bind
       (run_pool always_raises [Main, Main, Main, Worker 0, Worker 0, Worker 0, Main]
          (start_workers 1 ''outer'' demo_heap [Wenque (QRef 0), Wenque (QRef 0)]))
       main_step = None"
  by (simp add: eval_defs demo_inner_def demo_heap_def always_raises_def run_pool_def)



subsection \<open>The bound on concurrency\<close>

text \<open>
  C4. In every state a pool started with \<open>nworkers = n\<close> can reach, at most \<open>n\<close>
  threads are inside the handler call. The semaphore of the pool's queue starts at \<open>n\<close>,
  every thread inside the call holds one of its permits, and for \<open>n > 0\<close> the permits
  still free, the queued items and the permits held add up to \<open>n\<close>.
\<close>

theorem concurrency_bound:
  assumes "start_workers n f h cs = Inr s0" and "run raises sched s0 = Some s"
  shows "wsum executing (w_workers s) \<le> nat n
       \<and> semaphore (w_workq s0) = nat n
       \<and> wsum executing (w_workers s) \<le> wsum holds_permit (w_workers s)
       \<and> (0 < n \<longrightarrow>
            semaphore (w_workq s) + length (queue (w_workq s)) + wsum holds_permit (w_workers s)
              + main_permit (main s) = nat n)"
proof -
  have sh: "shape s = (nat n, nat n, n \<noteq> 0)"
    using shape_run [OF assms(2)] start_workers_shape [OF assms(1)] by simp
  have "acct_inv s" using acct_run [OF assms(2)] start_workers_acct [OF assms(1)] by simp
  then have lim: "0 < n \<longrightarrow>
      semaphore (w_workq s) + length (queue (w_workq s)) + wsum holds_permit (w_workers s)
        + main_permit (main s) = nat n"
    using sh by (auto simp: acct_inv_def limiter_inv_def shape_def)
  have "wsum executing (w_workers s) \<le> length (w_workers s)"
    by (rule wsum_le_length) (rule executing_le_1)
  then have a: "wsum executing (w_workers s) \<le> nat n" using sh by (simp add: shape_def)
  have b: "semaphore (w_workq s0) = nat n"
    using start_workers_Inr(2) [OF assms(1)] by simp
  have c: "wsum executing (w_workers s) \<le> wsum holds_permit (w_workers s)"
    by (rule wsum_mono) (rule executing_le_permit)
  show ?thesis using a b c lim by blast
qed

text \<open>
  C4, witness: two threads, one submitted item, the second thread inside the call.
\<close>

theorem concurrency_bound_witness:
  "\<exists>s0 s. start_workers 2 ''outer'' demo_heap [Wenque (QRef 0)] = Inr s0
     \<and> run never_raises [Main, Main, Main, Worker 1, Worker 1] s0 = Some s
     \<and> wsum executing (w_workers s) = 1
     \<and> wsum executing (w_workers s) \<le> nat 2
     \<and> semaphore (w_workq s0) = nat 2
     \<and> wsum executing (w_workers s) \<le> wsum holds_permit (w_workers s)
     \<and> semaphore (w_workq s) + length (queue (w_workq s)) + wsum holds_permit (w_workers s)
          + main_permit (main s) = nat 2"
proof -
  obtain s0 where s0: "start_workers 2 ''outer'' demo_heap [Wenque (QRef 0)] = Inr s0"
    by (simp add: start_workers_def WorkQ_def)
  note s0_eq = start_workers_Inr(2) [OF s0]
  obtain s where s: "run never_raises [Main, Main, Main, Worker 1, Worker 1] s0 = Some s"
    by (simp add: s0_eq eval_defs demo_inner_def demo_heap_def never_raises_def)
  have e: "wsum executing (w_workers s) = 1"
    using s by (auto simp: s0_eq eval_defs
        demo_inner_def demo_heap_def never_raises_def wsum_def eval_nat_numeral)
  show ?thesis using concurrency_bound [OF s0 s] s0 s e by auto
qed


subsection \<open>Shutdown\<close>

lemma main_ok_main_step:
  assumes "main_step s = Some s'" "main_ok (length (w_workers s)) (main s)"
  shows "main_ok (length (w_workers s')) (main s')"
  using assms(1)
proof (cases rule: main_step_cases)
qed (use assms(2) in \<open>auto simp: end_loop_def join_loop_def\<close>)

lemma main_worker_step:
  assumes "worker_step r i s = Some s'"
  shows "main s' = main s \<and> script s' = script s \<and> put_log s' = put_log s
       \<and> length (w_workers s') = length (w_workers s)"
  using assms
proof (cases rule: worker_step_cases)
qed (auto simp: set_worker_def)

lemma main_ok_step:
  "step r t s = Some s' \<Longrightarrow> main_ok (length (w_workers s)) (main s)
     \<Longrightarrow> main_ok (length (w_workers s')) (main s')"
  by (cases t) (auto dest: main_ok_main_step main_worker_step)




lemma tasks_simps [simp]:
  "tasks [] = 0" "tasks (PyNone # xs) = tasks xs" "it \<noteq> PyNone \<Longrightarrow> tasks (it # xs) = Suc (tasks xs)"
  "tasks (xs @ ys) = tasks xs + tasks ys" "tasks (replicate n PyNone) = 0"
  by (simp_all add: tasks_def)

lemma raised_calls_snoc:
  "raised_calls r (cs @ [(g, x)]) = raised_calls r cs + (if r g x then 1 else 0)"
  by (simp add: raised_calls_def)

lemma tasks_worker_step:
  assumes "worker_step r i s = Some s'" "tasks_inv r s"
  shows "tasks_inv r s'"
proof -
  have i: "i < length (w_workers s)" using assms(1) by (rule worker_step_bound)
  note sp = wsum_split [OF i, of before_call] wsum_split [OF i, of handler_crash]
  show ?thesis using assms(1)
  proof (cases rule: worker_step_cases)
    case (self_fetch wi q')
    then show ?thesis using assms(2) sp
      by (cases "wi = PyNone")
        (auto simp: tasks_inv_def set_worker_def wsum_update prim_defs split: list.splits)
  next
    case (self_call_returns wi)
    then show ?thesis using assms(2) sp
      by (cases "wi = PyNone")
        (auto simp: tasks_inv_def set_worker_def wsum_update raised_calls_snoc)
  next
    case (self_call_raises wi)
    then show ?thesis using assms(2) sp
      by (cases "wi = PyNone")
        (auto simp: tasks_inv_def set_worker_def wsum_update raised_calls_snoc)
  qed (use assms(2) sp in \<open>auto simp: tasks_inv_def set_worker_def wsum_update prim_defs
        raised_calls_snoc split: if_splits list.splits\<close>)
qed

lemma tasks_main_step:
  assumes "main_step s = Some s'" "tasks_inv r s"
  shows "tasks_inv r s'"
  using assms(1)
proof (cases rule: main_step_cases)
  case (wenque_enqueue it q')
  then show ?thesis using assms(2)
    by (cases "it = PyNone") (auto simp: tasks_inv_def prim_defs split: if_splits)
qed (use assms(2) in \<open>auto simp: tasks_inv_def prim_defs split: if_splits\<close>)

lemma tasks_step: "step r t s = Some s' \<Longrightarrow> tasks_inv r s \<Longrightarrow> tasks_inv r s'"
  by (cases t) (auto dest: tasks_main_step tasks_worker_step)

lemma unacked_zero: "unacked w = 0 \<longleftrightarrow> w = Fetch \<or> w = SentinelBreak \<or> w = Exited"
  by (cases w) simp_all

lemma wsum_zero_nth:
  assumes "wsum f ws = 0" "i < length ws"
  shows "f (ws ! i) = 0"
  using assms wsum_split [OF assms(2), of f] by simp

text \<open>
  Once the counter of the queue is 0, the only step a thread can take is to end after its
  \<open>break\<close>.
\<close>

lemma quiet_worker_step:
  assumes "worker_step r i s = Some s'" "unfinished_inv s" "unfinished_tasks (w_workq s) = 0"
  shows "w_workers s ! i = SentinelBreak \<and> s' = set_worker i Exited s"
proof -
  have i: "i < length (w_workers s)" using assms(1) by (rule worker_step_bound)
  have q: "queue (w_workq s) = []" and z: "wsum unacked (w_workers s) = 0"
    using assms(2,3) by (simp_all add: unfinished_inv_def)
  have "unacked (w_workers s ! i) = 0" using z i by (rule wsum_zero_nth)
  then have "w_workers s ! i = Fetch \<or> w_workers s ! i = SentinelBreak \<or> w_workers s ! i = Exited"
    by (simp add: unacked_zero)
  then show ?thesis using q i assms(1) by (auto simp: worker_step_def Queue_get_def)
qed

lemma ends_with_shutdown_nonempty: "ends_with_shutdown cs \<Longrightarrow> cs \<noteq> []"
  by (cases cs) simp_all

lemma list_all_take_update:
  assumes "list_all P (take k ws)" "P w"
  shows "list_all P (take k (ws[i := w]))"
proof -
  have "P (ws[i := w] ! n)" if "n < length ws" "n < k" for n
  proof (cases "n = i")
    case True
    then show ?thesis using that assms(2) by simp
  next
    case False
    then show ?thesis using that assms(1) by (simp add: list_all_length)
  qed
  then show ?thesis by (simp add: list_all_length)
qed

lemma joined_upto_break:
  assumes "worker_step r i s = Some s'" "unfinished_inv s" "joined_upto k s"
  shows "joined_upto k s'"
proof -
  have "w_workers s ! i = SentinelBreak \<and> s' = set_worker i Exited s"
    using assms by (intro quiet_worker_step) (simp_all add: joined_upto_def)
  then show ?thesis using assms(3)
    by (simp add: joined_upto_def set_worker_def list_all_take_update)
qed

lemma phase_worker_step:
  assumes "worker_step r i s = Some s'" "phase_inv s" "unfinished_inv s"
  shows "phase_inv s'"
proof -
  note fr = main_worker_step [OF assms(1)]
  note jb = joined_upto_break [OF assms(1,3)]
  show ?thesis
  proof (cases "main s")
    case MIdle
    then show ?thesis using assms(2) fr jb by (auto simp: phase_inv_def split: if_splits)
  next
    case (EndJoinThread j)
    then show ?thesis using assms(2) fr jb by (auto simp: phase_inv_def)
  qed (use assms(2) fr in \<open>auto simp: phase_inv_def\<close>)
qed

lemma joined_upto_Suc:
  assumes "joined_upto i s" "i < length (w_workers s)" "w_workers s ! i = Exited"
  shows "joined_upto (Suc i) s"
  using assms by (simp add: joined_upto_def take_Suc_conv_app_nth)

lemma joined_upto_all:
  "joined_upto i s \<Longrightarrow> length (w_workers s) \<le> i \<Longrightarrow> joined_upto (length (w_workers s)) s"
  by (simp add: joined_upto_def)

lemma phase_main_step:
  assumes "main_step s = Some s'" "phase_inv s" "unfinished_inv s"
    "main_ok (length (w_workers s)) (main s)"
  shows "phase_inv s'"
  using assms(1)
proof (cases rule: main_step_cases)
  case (call_wenque it cs)
  then show ?thesis using assms(2) by (auto simp: phase_inv_def)
next
  case (call_end cs)
  then show ?thesis using assms(2) by (auto simp: phase_inv_def end_loop_def)
next
  case (wenque_acquire it q')
  then show ?thesis using assms(2) by (auto simp: phase_inv_def)
next
  case (wenque_enqueue it q')
  then show ?thesis using assms(2)
    by (auto simp: phase_inv_def dest: ends_with_shutdown_nonempty)
next
  case (end_acquire i q')
  then show ?thesis using assms(2) by (auto simp: phase_inv_def)
next
  case (end_enqueue i q')
  then show ?thesis using assms(2) by (auto simp: phase_inv_def end_loop_def)
next
  case end_join
  then show ?thesis using assms(2)
    by (auto simp: phase_inv_def join_loop_def joined_upto_def)
next
  case (join_index_error i)
  then show ?thesis using assms(4) by simp
next
  case (join_thread i)
  have j: "joined_upto i s" using join_thread(1) assms(2) by (simp add: phase_inv_def)
  then have "wsum unacked (w_workers s) = 0"
    using assms(3) by (simp add: joined_upto_def unfinished_inv_def)
  then have "unacked (w_workers s ! i) = 0" using join_thread(2) by (rule wsum_zero_nth)
  then have "w_workers s ! i = Exited"
    using join_thread(3) by (auto simp: unacked_zero)
  then have js: "joined_upto (Suc i) s" using j join_thread(2) by (simp add: joined_upto_Suc)
  have sc: "script s = []" using join_thread(1) assms(2) by (simp add: phase_inv_def)
  show ?thesis
  proof (cases "Suc i < length (w_workers s)")
    case True
    then show ?thesis using join_thread js sc
      by (simp add: phase_inv_def join_loop_def joined_upto_def)
  next
    case False
    then have "joined_upto (length (w_workers s)) s" using js by (simp add: joined_upto_all)
    then show ?thesis using join_thread False sc
      by (simp add: phase_inv_def join_loop_def joined_upto_def)
  qed
qed

lemma shutdown_step:
  assumes "step r t s = Some s'" "shutdown_inv r s"
  shows "shutdown_inv r s'"
proof -
  have a: "acct_inv s'" using assms by (auto simp: shutdown_inv_def dest: acct_step)
  have b: "tasks_inv r s'" using assms by (auto simp: shutdown_inv_def dest: tasks_step)
  have c: "main_ok (length (w_workers s')) (main s')"
    using assms by (auto simp: shutdown_inv_def dest: main_ok_step)
  have d: "phase_inv s'"
    using assms by (cases t)
      (auto simp: shutdown_inv_def acct_inv_def dest: phase_main_step phase_worker_step)
  show ?thesis using a b c d by (simp add: shutdown_inv_def)
qed

lemma shutdown_run: "run r sched s = Some s' \<Longrightarrow> shutdown_inv r s \<Longrightarrow> shutdown_inv r s'"
  by (erule run_invariant) (auto intro: shutdown_step)


lemma ends_with_shutdown_script: "ends_with_shutdown (map Wenque its @ [EndWorkers])"
  by (induction its) simp_all


lemma start_workers_shutdown_inv:
  assumes "start_workers n f h (map Wenque its @ [EndWorkers]) = Inr s"
  shows "shutdown_inv r s"
proof -
  note s = start_workers_Inr(2) [OF assms]
  have "tasks_inv r s"
    by (subst s) (simp add: tasks_inv_def wsum_replicate raised_calls_def)
  moreover have "phase_inv s"
    by (subst s) (simp add: phase_inv_def ends_with_shutdown_script)
  moreover have "main_ok (length (w_workers s)) (main s)"
    by (subst s) simp
  ultimately show ?thesis using start_workers_acct [OF assms] by (simp add: shutdown_inv_def)
qed





lemma list_all_update_I: "list_all P ws \<Longrightarrow> P w \<Longrightarrow> list_all P (ws[i := w])"
  using list_all_take_update [of P "length ws" ws w i] by simp

lemma no_self_worker_step:
  assumes "worker_step r i s = Some s'" "no_self s"
  shows "no_self s' \<and> pool_calls s' = pool_calls s"
proof -
  have i: "i < length (w_workers s)" using assms(1) by (rule worker_step_bound)
  have ns: "\<not> self_point (w_workers s ! i)"
    using assms(2) i by (simp add: no_self_def list_all_length)
  show ?thesis using assms(1)
  proof (cases rule: worker_step_cases)
    case (fetch_item it q')
    then have "queue (w_workq s) = it # queue q'"
      by (auto simp: Queue_get_def split: list.splits)
    then show ?thesis using fetch_item assms(2)
      by (auto simp: no_self_def set_worker_def list_all_update_I)
  next
    case (fetch_sentinel q')
    then have "queue (w_workq s) = PyNone # queue q'"
      by (auto simp: Queue_get_def split: list.splits)
    then show ?thesis using fetch_sentinel assms(2)
      by (auto simp: no_self_def set_worker_def list_all_update_I)
  qed (use assms(2) ns in \<open>auto simp: no_self_def set_worker_def list_all_update_I prim_defs
         split: if_splits\<close>)
qed

lemma no_self_main_step:
  assumes "main_step s = Some s'" "no_self s"
  shows "no_self s' \<and> pool_calls s' = pool_calls s"
  using assms(1)
proof (cases rule: main_step_cases)
qed (use assms(2) in \<open>auto simp: no_self_def prim_defs end_loop_def join_loop_def
       split: if_splits\<close>)

lemma no_self_step:
  "step r t s = Some s' \<Longrightarrow> no_self s \<Longrightarrow> no_self s' \<and> pool_calls s' = pool_calls s"
  by (cases t) (auto dest: no_self_main_step no_self_worker_step)

lemma no_self_run:
  assumes "run r sched s = Some s'" "no_self s"
  shows "no_self s' \<and> pool_calls s' = pool_calls s"
  using assms
proof (induction sched arbitrary: s)
  case Nil
  then show ?case by simp
next
  case (Cons t ts)
  then obtain u where u: "step r t s = Some u" "run r ts u = Some s'"
    by (auto split: option.splits)
  have "no_self u \<and> pool_calls u = pool_calls s" using u(1) Cons.prems(2) by (rule no_self_step)
  then show ?case using Cons.IH [OF u(2)] by simp
qed

lemma start_workers_no_self:
  assumes "start_workers n f h cs = Inr s" "Wenque Self \<notin> set cs"
  shows "no_self s \<and> pool_calls s = []"
  using assms(2)
  by (subst (1 2) start_workers_Inr(2) [OF assms(1)]) (simp add: no_self_def list_all_length)



subsection \<open>Capacity\<close>

lemma holds_permit_le_unacked: "holds_permit w \<le> unacked w"
  by (cases w) simp_all

text \<open>
  C5, amended. For \<open>nworkers > 0\<close> the bound of the queue is not a knob of its own: it
  is the number of threads. \<open>put\<close> takes a permit before it enqueues, and a thread gives
  the permit back in \<open>task_done\<close>, after the handler has returned and before
  \<open>Queue.task_done\<close> counts the item as acknowledged. So the free permits, the queued
  items and the permits held add up to the bound, queued plus executing work never exceeds
  it, and every holder of a permit is a thread with an unacknowledged item.
\<close>

theorem outstanding_bound:
  assumes "start_workers n f h cs = Inr s0" and "run raises sched s0 = Some s" and "0 < n"
  shows "maxsize (w_workq s) = length (w_workers s)
       \<and> semaphore (w_workq s) + length (queue (w_workq s)) + wsum holds_permit (w_workers s)
           + main_permit (main s) = maxsize (w_workq s)
       \<and> length (queue (w_workq s)) + wsum executing (w_workers s) \<le> maxsize (w_workq s)
       \<and> wsum holds_permit (w_workers s) \<le> wsum unacked (w_workers s)
       \<and> unfinished_tasks (w_workq s) = length (queue (w_workq s)) + wsum unacked (w_workers s)"
proof -
  have sh: "shape s = (nat n, nat n, n \<noteq> 0)"
    using shape_run [OF assms(2)] start_workers_shape [OF assms(1)] by simp
  have inv: "acct_inv s" using acct_run [OF assms(2)] start_workers_acct [OF assms(1)] by simp
  have a: "maxsize (w_workq s) = length (w_workers s)" using sh by (simp add: shape_def)
  have b: "semaphore (w_workq s) + length (queue (w_workq s)) + wsum holds_permit (w_workers s)
           + main_permit (main s) = maxsize (w_workq s)"
    using inv sh assms(3) by (auto simp: acct_inv_def limiter_inv_def shape_def)
  have "wsum executing (w_workers s) \<le> wsum holds_permit (w_workers s)"
    by (rule wsum_mono) (rule executing_le_permit)
  then have c: "length (queue (w_workq s)) + wsum executing (w_workers s) \<le> maxsize (w_workq s)"
    using b by linarith
  have d: "wsum holds_permit (w_workers s) \<le> wsum unacked (w_workers s)"
    by (rule wsum_mono) (rule holds_permit_le_unacked)
  have e: "unfinished_tasks (w_workq s) = length (queue (w_workq s)) + wsum unacked (w_workers s)"
    using inv by (simp add: acct_inv_def unfinished_inv_def)
  show ?thesis using a b c d e by simp
qed

text \<open>
  C5, witness: one thread that has given its permit back and not yet acknowledged its
  item, while the owner has enqueued the next one: two unacknowledged items, bound 1.
\<close>

theorem outstanding_bound_witness:
  "\<exists>s0 s. start_workers 1 ''outer'' demo_heap [Wenque (QRef 0), Wenque (QRef 1)] = Inr s0
     \<and> run never_raises
          [Main, Main, Main, Worker 0, Worker 0, Worker 0, Worker 0, Worker 0, Worker 0,
           Main, Main, Main] s0 = Some s
     \<and> (0::int) < 1
     \<and> maxsize (w_workq s) = length (w_workers s)
     \<and> semaphore (w_workq s) + length (queue (w_workq s)) + wsum holds_permit (w_workers s)
           + main_permit (main s) = maxsize (w_workq s)
     \<and> length (queue (w_workq s)) + wsum executing (w_workers s) \<le> maxsize (w_workq s)
     \<and> wsum holds_permit (w_workers s) \<le> wsum unacked (w_workers s)
     \<and> unfinished_tasks (w_workq s) = 2 \<and> maxsize (w_workq s) = 1"
proof -
  obtain s0 where s0:
    "start_workers 1 ''outer'' demo_heap [Wenque (QRef 0), Wenque (QRef 1)] = Inr s0"
    by (simp add: start_workers_def WorkQ_def)
  note s0_eq = start_workers_Inr(2) [OF s0]
  obtain s where s: "run never_raises
          [Main, Main, Main, Worker 0, Worker 0, Worker 0, Worker 0, Worker 0, Worker 0,
           Main, Main, Main] s0 = Some s"
    by (simp add: s0_eq eval_defs demo_inner_def demo_heap_def never_raises_def)
  have g: "unfinished_tasks (w_workq s) = 2" "maxsize (w_workq s) = 1"
    using s by (auto simp: s0_eq eval_defs demo_inner_def demo_heap_def never_raises_def)
  have p: "(0::int) < 1" by simp
  show ?thesis using outstanding_bound [OF s0 s p] s0 s g by auto
qed

text \<open>
  C5, counterexample: with everything else the same, \<open>nworkers = 1\<close> gives bound 1 and
  \<open>nworkers = 3\<close> gives bound 3; and a thread that has run the release of line 68 and
  not yet \<open>Queue.task_done\<close> leaves the semaphore at 1 while the counter still holds
  its item.
\<close>

theorem independent_capacity_counterexample:
  "capacity (start_workers 1 ''outer'' demo_heap []) = Some 1
   \<and> worker_count (start_workers 1 ''outer'' demo_heap []) = Some 1
   \<and> capacity (start_workers 3 ''outer'' demo_heap []) = Some 3
   \<and> worker_count (start_workers 3 ''outer'' demo_heap []) = Some 3
   \<and> map_option w_workers
       (run_pool never_raises
          [Main, Main, Main, Worker 0, Worker 0, Worker 0, Worker 0, Worker 0, Worker 0]
          (start_workers 1 ''outer'' demo_heap [Wenque (QRef 0)])) = Some [OuterDone]
   \<and> map_option w_workq
       (run_pool never_raises
          [Main, Main, Main, Worker 0, Worker 0, Worker 0, Worker 0, Worker 0, Worker 0]
          (start_workers 1 ''outer'' demo_heap [Wenque (QRef 0)]))
     = Some \<lparr>lock_req = True, func = ''outer'', semaphore = 1, maxsize = 1, queue = [],
             unfinished_tasks = 1\<rparr>"
  by (simp add: eval_defs
      demo_inner_def demo_heap_def never_raises_def run_pool_def capacity_def worker_count_def)

subsection \<open>A second shutdown\<close>

lemma hang_worker_step: "hang_inv pl s \<Longrightarrow> worker_step r i s = None"
proof (cases "i < length (w_workers s)")
  case True
  assume "hang_inv pl s"
  then have "w_workers s ! i = Exited" using True by (simp add: hang_inv_def list_all_length)
  then show ?thesis by (simp add: finished_no_step)
next
  case False
  then show ?thesis by (simp add: worker_step_def)
qed

lemma replicate_last_round:
  "i < n \<Longrightarrow> \<not> Suc i < n \<Longrightarrow> x # replicate i x = replicate n x"
proof -
  assume "i < n" "\<not> Suc i < n"
  then have "n = Suc i" by simp
  then show ?thesis by simp
qed

lemma hang_main_step:
  assumes "main_step s = Some s'" "hang_inv pl s"
  shows "hang_inv pl s'"
  using assms(1)
proof (cases rule: main_step_cases)
  case (end_enqueue i q')
  then show ?thesis using assms(2)
    by (auto simp: hang_inv_def rounds_def end_loop_def Queue_put_def
        replicate_append_same replicate_last_round split: if_splits)
next
  case (end_acquire i q')
  then show ?thesis using assms(2)
    by (auto simp: hang_inv_def rounds_def prim_defs split: if_splits)
qed (use assms(2) in \<open>auto simp: hang_inv_def rounds_def end_loop_def split: if_splits\<close>)

lemma hang_step: "step r t s = Some s' \<Longrightarrow> hang_inv pl s \<Longrightarrow> hang_inv pl s'"
  by (cases t) (auto dest: hang_main_step simp: hang_worker_step)

lemma hang_calls_step:
  assumes "step r t s = Some s'" "hang_inv pl s"
  shows "calls s' = calls s \<and> pool_calls s' = pool_calls s"
proof (cases t)
  case Main
  then have "main_step s = Some s'" using assms(1) by simp
  then show ?thesis by (cases rule: main_step_cases) auto
next
  case (Worker i)
  then show ?thesis using assms by (simp add: hang_worker_step)
qed

lemma hang_progress:
  assumes "hang_inv pl s" "steps_left (length (w_workers s)) (main s) = Suc k"
  shows "\<exists>s'. main_step s = Some s' \<and> steps_left (length (w_workers s')) (main s') = k"
proof (cases "main s")
  case MIdle
  then show ?thesis using assms
    by (auto simp: hang_inv_def main_step_def end_loop_def)
next
  case (EndAcquire i)
  then show ?thesis using assms
    by (auto simp: hang_inv_def rounds_def main_step_def prim_defs)
next
  case (EndEnqueue i)
  then show ?thesis using assms
    by (auto simp: hang_inv_def rounds_def main_step_def enqueue_def Queue_put_def end_loop_def)
qed (use assms in \<open>auto simp: hang_inv_def\<close>)

lemma hang_reaches_join:
  assumes "hang_inv pl s" "steps_left (length (w_workers s)) (main s) = k"
  shows "\<exists>s'. run r (replicate k Main) s = Some s' \<and> hang_inv pl s'
              \<and> steps_left (length (w_workers s')) (main s') = 0"
  using assms
proof (induction k arbitrary: s)
  case 0
  then show ?case by simp
next
  case (Suc k)
  from hang_progress [OF Suc.prems]
  obtain u where u: "main_step s = Some u" "steps_left (length (w_workers u)) (main u) = k"
    by blast
  have "hang_inv pl u" using u(1) Suc.prems(1) by (rule hang_main_step)
  from Suc.IH [OF this u(2)] show ?case using u(1) by simp
qed

lemma hang_at_join:
  assumes "hang_inv pl s" "steps_left (length (w_workers s)) (main s) = 0"
  shows "main s = EndJoin"
  using assms by (cases "main s") (auto simp: hang_inv_def)

lemma hang_stuck:
  assumes "hang_inv pl s" "main s = EndJoin"
  shows "step r t s = None"
proof (cases t)
  case Main
  have "unfinished_tasks (w_workq s) \<noteq> 0" using assms by (auto simp: hang_inv_def rounds_def)
  then show ?thesis using Main assms(2) by (simp add: main_step_def Queue_join_def)
next
  case (Worker i)
  then show ?thesis using assms(1) by (simp add: hang_worker_step)
qed

lemma hang_run:
  assumes "run r sched s = Some s'" "hang_inv pl s"
  shows "hang_inv pl s' \<and> calls s' = calls s \<and> pool_calls s' = pool_calls s"
  using assms
proof (induction sched arbitrary: s)
  case Nil
  then show ?case by simp
next
  case (Cons t ts)
  then obtain u where u: "step r t s = Some u" "run r ts u = Some s'"
    by (auto split: option.splits)
  have "hang_inv pl u" using u(1) Cons.prems(2) by (rule hang_step)
  then show ?case using Cons.IH [OF u(2)] hang_calls_step [OF u(1) Cons.prems(2)] by simp
qed

lemma hang_log:
  assumes "hang_inv pl s"
  shows "\<exists>k \<le> length (w_workers s). put_log s = pl @ replicate k PyNone"
  using assms by (cases "main s") (auto simp: hang_inv_def rounds_def intro: less_imp_le)

text \<open>
  What \<open>end_workers\<close> leaves when it returns, for at least one thread, is such a pool.
\<close>

lemma returned_shut_down:
  assumes "start_workers n f h (map Wenque its @ [EndWorkers]) = Inr s0"
    and "run raises sched s0 = Some s" and "script s = []" and "main s = MIdle" and "0 < n"
  shows "shut_down s"
proof -
  have inv: "shutdown_inv raises s"
    using shutdown_run [OF assms(2)] start_workers_shutdown_inv [OF assms(1)] by simp
  have sh: "shape s = (nat n, nat n, n \<noteq> 0)"
    using shape_run [OF assms(2)] start_workers_shape [OF assms(1)] by simp
  have ex: "list_all (\<lambda>w. w = Exited) (w_workers s)"
    and uz: "unfinished_tasks (w_workq s) = 0"
    using inv assms(3,4) by (simp_all add: shutdown_inv_def phase_inv_def joined_upto_def)
  then have q: "queue (w_workq s) = []"
    using inv by (simp add: shutdown_inv_def acct_inv_def unfinished_inv_def)
  have "list_all (\<lambda>w. holds_permit w = 0) (w_workers s)"
    using ex by (simp add: list_all_length)
  then have "wsum holds_permit (w_workers s) = 0"
    by (induction "w_workers s") (simp_all add: wsum_def list_all_iff)
  then have "semaphore (w_workq s) = maxsize (w_workq s)"
    using inv sh assms(4,5) q
    by (auto simp: shutdown_inv_def acct_inv_def limiter_inv_def shape_def)
  then show ?thesis using sh ex uz q assms(4,5) by (auto simp: shut_down_def shape_def)
qed

text \<open>
  C6, amended. A second \<open>end_workers\<close> on a pool that was shut down is not detected.
  Run by the owner alone it enqueues one more \<open>None\<close> per thread and then stands at the
  \<open>join()\<close> of line 76, where no thread of the pool can take a step. Whatever the
  schedule, the call never returns and nothing is raised, in the owner or in a thread; no
  handler is called; what it has enqueued is at most one \<open>None\<close> per thread; and once
  the owner is at the \<open>join()\<close>, no step is left.
\<close>

theorem second_end_workers_hangs:
  assumes "shut_down s" and "script s = [EndWorkers]" and "w_workers s \<noteq> []"
  shows "(\<exists>s'. run raises (replicate (2 * length (w_workers s) + 1) Main) s = Some s'
            \<and> main s' = EndJoin
            \<and> put_log s' = put_log s @ replicate (length (w_workers s)) PyNone
            \<and> queue (w_workq s') = replicate (length (w_workers s)) PyNone
            \<and> (\<forall>t. step raises t s' = None))
       \<and> (\<forall>sched s'. run raises sched s = Some s' \<longrightarrow>
            \<not> (main s' = MIdle \<and> script s' = [])
            \<and> (\<forall>e. main s' \<noteq> MRaised e)
            \<and> list_all (\<lambda>w. w = Exited) (w_workers s')
            \<and> calls s' = calls s \<and> pool_calls s' = pool_calls s
            \<and> (\<exists>k \<le> length (w_workers s). put_log s' = put_log s @ replicate k PyNone)
            \<and> (main s' = EndJoin \<longrightarrow> (\<forall>t. step raises t s' = None)))"
proof -
  have h0: "hang_inv (put_log s) s"
    using assms by (simp add: shut_down_def hang_inv_def rounds_def)
  have sl: "steps_left (length (w_workers s)) (main s) = 2 * length (w_workers s) + 1"
    using assms(1) by (simp add: shut_down_def)
  from hang_reaches_join [OF h0 sl, of raises]
  obtain s' where s': "run raises (replicate (2 * length (w_workers s) + 1) Main) s = Some s'"
    "hang_inv (put_log s) s'" "steps_left (length (w_workers s')) (main s') = 0"
    by blast
  have len: "length (w_workers s') = length (w_workers s)"
    using shape_run [OF s'(1)] by (simp add: shape_def)
  have m: "main s' = EndJoin" using s'(2,3) by (rule hang_at_join)
  have a: "\<exists>s'. run raises (replicate (2 * length (w_workers s) + 1) Main) s = Some s'
            \<and> main s' = EndJoin
            \<and> put_log s' = put_log s @ replicate (length (w_workers s)) PyNone
            \<and> queue (w_workq s') = replicate (length (w_workers s)) PyNone
            \<and> (\<forall>t. step raises t s' = None)"
    using s'(1,2) m len hang_stuck [OF s'(2) m, of raises]
    by (auto simp: hang_inv_def rounds_def)
  have b: "\<forall>sched u. run raises sched s = Some u \<longrightarrow>
            \<not> (main u = MIdle \<and> script u = [])
            \<and> (\<forall>e. main u \<noteq> MRaised e)
            \<and> list_all (\<lambda>w. w = Exited) (w_workers u)
            \<and> calls u = calls s \<and> pool_calls u = pool_calls s
            \<and> (\<exists>k \<le> length (w_workers s). put_log u = put_log s @ replicate k PyNone)
            \<and> (main u = EndJoin \<longrightarrow> (\<forall>t. step raises t u = None))"
  proof (intro allI impI)
    fix sched u assume r: "run raises sched s = Some u"
    have hu: "hang_inv (put_log s) u" and c: "calls u = calls s" "pool_calls u = pool_calls s"
      using hang_run [OF r h0] by simp_all
    have lu: "length (w_workers u) = length (w_workers s)"
      using shape_run [OF r] by (simp add: shape_def)
    have 1: "\<not> (main u = MIdle \<and> script u = [])" using hu by (auto simp: hang_inv_def)
    have 2: "\<forall>e. main u \<noteq> MRaised e" using hu by (auto simp: hang_inv_def)
    have 3: "list_all (\<lambda>w. w = Exited) (w_workers u)" using hu by (simp add: hang_inv_def)
    have 4: "\<exists>k \<le> length (w_workers s). put_log u = put_log s @ replicate k PyNone"
      using hang_log [OF hu] lu by simp
    have 5: "main u = EndJoin \<longrightarrow> (\<forall>t. step raises t u = None)"
      using hang_stuck [OF hu] by blast
    show "\<not> (main u = MIdle \<and> script u = [])
            \<and> (\<forall>e. main u \<noteq> MRaised e)
            \<and> list_all (\<lambda>w. w = Exited) (w_workers u)
            \<and> calls u = calls s \<and> pool_calls u = pool_calls s
            \<and> (\<exists>k \<le> length (w_workers s). put_log u = put_log s @ replicate k PyNone)
            \<and> (main u = EndJoin \<longrightarrow> (\<forall>t. step raises t u = None))"
      using 1 2 3 4 5 c by blast
  qed
  show ?thesis using a b by blast
qed

text \<open>
  C6, witness: two threads; the state after the first \<open>end_workers\<close> is shut down, and
  five steps into the second the owner has enqueued two more \<open>None\<close> and is stuck at the
  \<open>join()\<close>.
\<close>

theorem second_end_workers_hangs_witness:
  "\<exists>s0 s s'. start_workers 2 ''outer'' demo_heap [EndWorkers, EndWorkers] = Inr s0
     \<and> run never_raises
          [Main, Main, Main, Main, Main,
           Worker 0, Worker 0, Worker 0, Worker 0, Worker 1, Worker 1, Worker 1, Worker 1,
           Main, Main, Main] s0 = Some s
     \<and> shut_down s \<and> script s = [EndWorkers] \<and> w_workers s \<noteq> []
     \<and> run never_raises (replicate (2 * length (w_workers s) + 1) Main) s = Some s'
     \<and> main s' = EndJoin
     \<and> put_log s' = put_log s @ replicate (length (w_workers s)) PyNone
     \<and> put_log s' = [PyNone, PyNone, PyNone, PyNone]
     \<and> main_step s' = None"
proof -
  obtain s0 where s0: "start_workers 2 ''outer'' demo_heap [EndWorkers, EndWorkers] = Inr s0"
    by (simp add: start_workers_def WorkQ_def)
  note s0_eq = start_workers_Inr(2) [OF s0]
  obtain s where s:
    "run never_raises
          [Main, Main, Main, Main, Main,
           Worker 0, Worker 0, Worker 0, Worker 0, Worker 1, Worker 1, Worker 1, Worker 1,
           Main, Main, Main] s0 = Some s"
    by (simp add: s0_eq eval_defs demo_inner_def demo_heap_def never_raises_def
        eval_nat_numeral)
  have h: "shut_down s" "script s = [EndWorkers]" "w_workers s \<noteq> []"
    using s by (auto simp: s0_eq eval_defs demo_inner_def demo_heap_def never_raises_def
        shut_down_def eval_nat_numeral)
  have pl: "put_log s = [PyNone, PyNone]" "length (w_workers s) = 2"
    using s by (auto simp: s0_eq eval_defs demo_inner_def demo_heap_def never_raises_def
        eval_nat_numeral)
  from second_end_workers_hangs [OF h, of never_raises]
  obtain s' where s':
    "run never_raises (replicate (2 * length (w_workers s) + 1) Main) s = Some s'"
    "main s' = EndJoin" "put_log s' = put_log s @ replicate (length (w_workers s)) PyNone"
    "\<forall>t. step never_raises t s' = None"
    by blast
  have "step never_raises Main s' = None" using s'(4) by blast
  then have ms: "main_step s' = None" by simp
  have "put_log s' = [PyNone, PyNone, PyNone, PyNone]"
    using s'(3) pl by (simp add: eval_nat_numeral)
  then show ?thesis using s0 s h s' ms by blast
qed

text \<open>
  C6, counterexample: one thread, \<open>end_workers\<close> called twice. The second call has
  enqueued its \<open>None\<close> and waits at the \<open>join()\<close> of line 76; the only thread has
  ended; neither can step, and nothing was raised.
\<close>

theorem second_end_workers_counterexample:
  "map_option main
     (run_pool never_raises
        [Main, Main, Main, Worker 0, Worker 0, Worker 0, Worker 0, Main, Main, Main, Main, Main]
        (start_workers 1 ''outer'' demo_heap [EndWorkers, EndWorkers])) = Some EndJoin
   \<and> map_option w_workers
     (run_pool never_raises
        [Main, Main, Main, Worker 0, Worker 0, Worker 0, Worker 0, Main, Main, Main, Main, Main]
        (start_workers 1 ''outer'' demo_heap [EndWorkers, EndWorkers])) = Some [Exited]
   \<and> map_option put_log
     (run_pool never_raises
        [Main, Main, Main, Worker 0, Worker 0, Worker 0, Worker 0, Main, Main, Main, Main, Main]
        (start_workers 1 ''outer'' demo_heap [EndWorkers, EndWorkers])) = Some [PyNone, PyNone]
   \<and> Option.bind
     (run_pool never_raises
        [Main, Main, Main, Worker 0, Worker 0, Worker 0, Worker 0, Main, Main, Main, Main, Main]
        (start_workers 1 ''outer'' demo_heap [EndWorkers, EndWorkers])) main_step = None
   \<and> Option.bind
     (run_pool never_raises
        [Main, Main, Main, Worker 0, Worker 0, Worker 0, Worker 0, Main, Main, Main, Main, Main]
        (start_workers 1 ''outer'' demo_heap [EndWorkers, EndWorkers]))
     (worker_step never_raises 0) = None"
  by (simp add: eval_defs demo_inner_def demo_heap_def never_raises_def run_pool_def)

subsection \<open>The handler stored on the pool's queue\<close>

lemma set_func_main_step:
  "main_step (set_func g s) = map_option (set_func g) (main_step s)"
  by (simp add: main_step_def set_func_def enqueue_def end_loop_def join_loop_def
      Queue_join_def prim_defs split: mstate.splits list.splits call.splits)

lemma set_func_worker_step:
  assumes "\<not> self_point (w_workers s ! i)"
  shows "worker_step r i (set_func g s) = map_option (set_func g) (worker_step r i s)"
proof (cases "w_workers s ! i")
  case (InnerFetch it)
  then show ?thesis using assms
    by (cases it)
      (simp_all add: worker_step_def set_func_def set_worker_def prim_defs
        split: option.splits list.splits)
qed (use assms in \<open>simp_all add: worker_step_def set_func_def set_worker_def prim_defs
       split: option.splits list.splits\<close>)

lemma no_self_set_func: "no_self (set_func g s) = no_self s"
  by (simp add: no_self_def set_func_def)

lemma set_func_step:
  assumes "no_self s"
  shows "step r t (set_func g s) = map_option (set_func g) (step r t s)"
proof (cases t)
  case Main
  then show ?thesis by (simp add: set_func_main_step)
next
  case (Worker i)
  show ?thesis
  proof (cases "i < length (w_workers s)")
    case True
    then have "\<not> self_point (w_workers s ! i)"
      using assms by (simp add: no_self_def list_all_length)
    then show ?thesis using Worker by (simp add: set_func_worker_step)
  next
    case False
    then show ?thesis using Worker by (simp add: worker_step_def set_func_def)
  qed
qed

lemma set_func_run:
  assumes "no_self s"
  shows "run r sched (set_func g s) = map_option (set_func g) (run r sched s)"
  using assms
proof (induction sched arbitrary: s)
  case Nil
  then show ?case by simp
next
  case (Cons t ts)
  show ?case
  proof (cases "step r t s")
    case None
    then show ?thesis using Cons.prems by (simp add: set_func_step)
  next
    case (Some u)
    then have "no_self u" using no_self_step [OF Some Cons.prems] by simp
    then show ?thesis using Some Cons.prems Cons.IH [of u] by (simp add: set_func_step)
  qed
qed

lemma start_workers_set_func:
  assumes "start_workers n f h cs = Inr s"
  shows "start_workers n g h cs = Inr (set_func g s)"
  using assms by (auto simp: start_workers_def WorkQ_def set_func_def split: if_splits)

text \<open>
  No step assigns the \<open>func\<close> of a queue, and every logged call is that of the
  \<open>func\<close> of a queue of the store.
\<close>

lemma inner_funcs_worker_step:
  assumes "worker_step r i s = Some s'"
    and "func (w_workq s) = f \<and> (\<forall>a. func (heap s a) = func (h a))
         \<and> (\<forall>c \<in> set (calls s). \<exists>a. fst c = func (h a))"
  shows "func (w_workq s') = f \<and> (\<forall>a. func (heap s' a) = func (h a))
         \<and> (\<forall>c \<in> set (calls s'). \<exists>a. fst c = func (h a))"
  using assms(1)
proof (cases rule: worker_step_cases)
qed (use assms(2) in \<open>auto simp: set_worker_def prim_defs split: if_splits list.splits\<close>)

lemma inner_funcs_main_step:
  assumes "main_step s = Some s'"
    and "func (w_workq s) = f \<and> (\<forall>a. func (heap s a) = func (h a))
         \<and> (\<forall>c \<in> set (calls s). \<exists>a. fst c = func (h a))"
  shows "func (w_workq s') = f \<and> (\<forall>a. func (heap s' a) = func (h a))
         \<and> (\<forall>c \<in> set (calls s'). \<exists>a. fst c = func (h a))"
  using assms(1)
proof (cases rule: main_step_cases)
qed (use assms(2) in \<open>auto simp: prim_defs split: if_splits\<close>)

lemma inner_funcs_step:
  assumes "step r t s = Some s'"
    and "func (w_workq s) = f \<and> (\<forall>a. func (heap s a) = func (h a))
         \<and> (\<forall>c \<in> set (calls s). \<exists>a. fst c = func (h a))"
  shows "func (w_workq s') = f \<and> (\<forall>a. func (heap s' a) = func (h a))
         \<and> (\<forall>c \<in> set (calls s'). \<exists>a. fst c = func (h a))"
proof (cases t)
  case Main
  then show ?thesis using assms inner_funcs_main_step [of s s' f h] by simp
next
  case (Worker i)
  then show ?thesis using assms inner_funcs_worker_step [of r i s s' f h] by simp
qed

lemma inner_funcs_run:
  assumes "start_workers n f h cs = Inr s0" "run r sched s0 = Some s"
  shows "func (w_workq s) = f \<and> (\<forall>a. func (heap s a) = func (h a))
         \<and> (\<forall>c \<in> set (calls s). \<exists>a. fst c = func (h a))"
proof (rule run_invariant [OF assms(2)])
  show "func (w_workq s0) = f \<and> (\<forall>a. func (heap s0 a) = func (h a))
         \<and> (\<forall>c \<in> set (calls s0). \<exists>a. fst c = func (h a))"
    by (subst (1 2 3) start_workers_Inr(2) [OF assms(1)]) simp
next
  fix t u u'
  assume "step r t u = Some u'"
    and "func (w_workq u) = f \<and> (\<forall>a. func (heap u a) = func (h a))
         \<and> (\<forall>c \<in> set (calls u). \<exists>a. fst c = func (h a))"
  then show "func (w_workq u') = f \<and> (\<forall>a. func (heap u' a) = func (h a))
         \<and> (\<forall>c \<in> set (calls u'). \<exists>a. fst c = func (h a))"
    by (rule inner_funcs_step)
qed

lemma tasks_run: "run r sched s = Some s' \<Longrightarrow> tasks_inv r s \<Longrightarrow> tasks_inv r s'"
  by (erule run_invariant) (auto intro: tasks_step)

lemma start_workers_tasks: "start_workers n f h cs = Inr s \<Longrightarrow> tasks_inv r s"
  by (drule start_workers_Inr(2))
    (simp add: tasks_inv_def wsum_replicate raised_calls_def)

lemma other_thread_step:
  assumes "step r t s = Some s'" "t \<noteq> Worker i"
  shows "w_workers s' ! i = w_workers s ! i"
proof (cases t)
  case Main
  then show ?thesis using assms(1) workers_main_step [of s s'] by simp
next
  case (Worker j)
  then have st: "worker_step r j s = Some s'" and ji: "j \<noteq> i" using assms by simp_all
  from st show ?thesis
  proof (cases rule: worker_step_cases)
  qed (use ji in \<open>auto simp: set_worker_def\<close>)
qed

lemma inner_worker_step:
  assumes "worker_step r i s = Some s'" "inner_inv a s"
  shows "inner_inv a s'"
  using assms(1)
proof (cases rule: worker_step_cases)
qed (use assms(2) in \<open>auto simp: inner_inv_def set_worker_def wsum_update prim_defs
        dest!: wsum_split [where f = "inner_unacked a"] split: if_splits list.splits\<close>)

lemma inner_main_step:
  assumes "main_step s = Some s'" "inner_inv a s"
  shows "inner_inv a s'"
  using assms(1)
proof (cases rule: main_step_cases)
qed (use assms(2) in \<open>auto simp: inner_inv_def prim_defs split: if_splits\<close>)

lemma inner_step: "step r t s = Some s' \<Longrightarrow> inner_inv a s \<Longrightarrow> inner_inv a s'"
  by (cases t) (auto intro: inner_main_step inner_worker_step)

lemma inner_run: "run r sched s = Some s' \<Longrightarrow> inner_inv a s \<Longrightarrow> inner_inv a s'"
  by (erule run_invariant) (auto intro: inner_step)

lemma start_workers_inner:
  assumes "start_workers n f h cs = Inr s" "length (queue (h a)) \<le> unfinished_tasks (h a)"
  shows "inner_inv a s"
  using assms(2)
  by (subst start_workers_Inr(2) [OF assms(1)]) (simp add: inner_inv_def wsum_replicate)

lemma inner_unacked_pos:
  assumes "inner_inv a s" "i < length (w_workers s)" "w_workers s ! i = InnerDone a"
  shows "unfinished_tasks (heap s a) \<noteq> 0"
  using assms wsum_split [OF assms(2), of "inner_unacked a"] by (simp add: inner_inv_def)

text \<open>
  C9, amended. The pool's queue is never submitted to itself. Then, in every state of every
  schedule: the handler that \<open>start_workers\<close> was given is still stored on the pool's
  queue and was never called, and the run is the same whatever handler was given; every
  call made is that of the \<open>func\<close> of a queue of the store; every submitted item other
  than \<open>None\<close> is in the pool's queue, or with a thread that has not made its call, or
  accounted for by exactly one call. A thread is never at a program point of lines 65 to 67
  on the pool's own queue, and what its next step does is this. At line 61 it takes the
  next item of the pool's queue, or blocks. At line 65 on a \<open>WorkQ\<close> of the store it
  takes the next element of that queue and nothing else, or blocks while the queue is
  empty; at line 66 it calls that queue's own \<open>func\<close> on the element and ends if the
  call raises; at line 67 it releases and then acknowledges that queue, which raises
  \<open>ValueError\<close> only if the counter of that queue is 0, and never does when the caller
  built the queues of the store by \<open>put\<close>; at line 68 it releases and acknowledges the
  pool's queue, which never raises, and is back at line 61. An item that is no \<open>WorkQ\<close>
  ends the thread: an object without \<open>get\<close> with \<open>AttributeError\<close> at line 65, a
  \<open>dict\<close> with \<open>TypeError\<close> at line 65, a plain \<open>queue.Queue\<close> with
  \<open>AttributeError\<close> at line 66, after line 65 has taken an element off it. The steps
  of the other threads leave the program point of a thread as it is.
\<close>

theorem worker_applies_inner_func:
  assumes "start_workers n f h cs = Inr s0" and "run raises sched s0 = Some s"
    and "Wenque Self \<notin> set cs"
  shows "func (w_workq s) = f
       \<and> pool_calls s = []
       \<and> run_pool raises sched (start_workers n g h cs) = Some (set_func g s)
       \<and> (\<forall>c \<in> set (calls s). \<exists>a. fst c = func (h a))
       \<and> tasks (put_log s)
           = tasks (queue (w_workq s)) + wsum before_call (w_workers s) + length (calls s)
       \<and> list_all (\<lambda>w. \<not> self_point w) (w_workers s)
       \<and> (\<forall>i. i < length (w_workers s) \<and> w_workers s ! i = Fetch \<longrightarrow>
            worker_step raises i s =
              (case queue (w_workq s) of
                 [] \<Rightarrow> None
               | wq # rest \<Rightarrow>
                   Some (set_worker i (if wq = PyNone then SentinelRelease else InnerFetch wq)
                           (s\<lparr>w_workq := (w_workq s)\<lparr>queue := rest\<rparr>\<rparr>))))
       \<and> (\<forall>i a. i < length (w_workers s) \<and> w_workers s ! i = InnerFetch (QRef a) \<longrightarrow>
            worker_step raises i s =
              (case queue (heap s a) of
                 [] \<Rightarrow> None
               | wi # rest \<Rightarrow>
                   Some (set_worker i (Call a wi)
                           (s\<lparr>heap := (heap s)(a := (heap s a)\<lparr>queue := rest\<rparr>)\<rparr>))))
       \<and> (\<forall>i a wi. i < length (w_workers s) \<and> w_workers s ! i = Call a wi \<longrightarrow>
            worker_step raises i s =
              Some (set_worker i
                      (if raises (func (h a)) wi then Crashed HandlerError else InnerRelease a)
                      (s\<lparr>calls := calls s @ [(func (h a), wi)]\<rparr>)))
       \<and> (\<forall>i a. i < length (w_workers s) \<and> w_workers s ! i = InnerRelease a \<longrightarrow>
            worker_step raises i s =
              Some (set_worker i (InnerDone a)
                      (s\<lparr>heap := (heap s)(a := task_done_unlock (heap s a))\<rparr>)))
       \<and> (\<forall>i a. i < length (w_workers s) \<and> w_workers s ! i = InnerDone a \<longrightarrow>
            worker_step raises i s =
              (if unfinished_tasks (heap s a) = 0 then Some (set_worker i (Crashed ValueError) s)
               else Some (set_worker i OuterRelease
                            (s\<lparr>heap := (heap s)(a := (heap s a)
                                  \<lparr>unfinished_tasks := unfinished_tasks (heap s a) - 1\<rparr>)\<rparr>))))
       \<and> ((\<forall>a. length (queue (h a)) \<le> unfinished_tasks (h a)) \<longrightarrow>
            (\<forall>i a. i < length (w_workers s) \<and> w_workers s ! i = InnerDone a \<longrightarrow>
               unfinished_tasks (heap s a) \<noteq> 0))
       \<and> (\<forall>i. i < length (w_workers s) \<and> w_workers s ! i = OuterRelease \<longrightarrow>
            worker_step raises i s =
              Some (set_worker i OuterDone (s\<lparr>w_workq := task_done_unlock (w_workq s)\<rparr>)))
       \<and> (\<forall>i. i < length (w_workers s) \<and> w_workers s ! i = OuterDone \<longrightarrow>
            worker_step raises i s =
              Some (set_worker i Fetch
                      (s\<lparr>w_workq := (w_workq s)
                            \<lparr>unfinished_tasks := unfinished_tasks (w_workq s) - 1\<rparr>\<rparr>)))
       \<and> (\<forall>i. i < length (w_workers s) \<and> w_workers s ! i = OuterDone \<longrightarrow>
            unfinished_tasks (w_workq s) \<noteq> 0)
       \<and> (\<forall>i x. i < length (w_workers s) \<and> w_workers s ! i = InnerFetch (Obj x) \<longrightarrow>
            worker_step raises i s = Some (set_worker i (Crashed AttributeError) s))
       \<and> (\<forall>i x. i < length (w_workers s) \<and> w_workers s ! i = InnerFetch (Dict x) \<longrightarrow>
            worker_step raises i s = Some (set_worker i (Crashed TypeError) s))
       \<and> (\<forall>i a. i < length (w_workers s) \<and> w_workers s ! i = InnerFetch (PlainQ a) \<longrightarrow>
            worker_step raises i s =
              (case queue (heap s a) of
                 [] \<Rightarrow> None
               | wi # rest \<Rightarrow>
                   Some (set_worker i CallPlain
                           (s\<lparr>heap := (heap s)(a := (heap s a)\<lparr>queue := rest\<rparr>)\<rparr>))))
       \<and> (\<forall>i. i < length (w_workers s) \<and> w_workers s ! i = CallPlain \<longrightarrow>
            worker_step raises i s = Some (set_worker i (Crashed AttributeError) s))
       \<and> (\<forall>t u i. step raises t s = Some u \<and> t \<noteq> Worker i \<longrightarrow>
            w_workers u ! i = w_workers s ! i)"
proof -
  have ns0: "no_self s0" and pc0: "pool_calls s0 = []"
    using start_workers_no_self [OF assms(1,3)] by simp_all
  have ns: "no_self s" and pc: "pool_calls s = []"
    using no_self_run [OF assms(2) ns0] pc0 by simp_all
  have fi: "func (w_workq s) = f" and hf: "\<forall>a. func (heap s a) = func (h a)"
    and cf: "\<forall>c \<in> set (calls s). \<exists>a. fst c = func (h a)"
    using inner_funcs_run [OF assms(1,2)] by simp_all
  have "run raises sched (set_func g s0) = Some (set_func g s)"
    using set_func_run [OF ns0, of raises sched g] assms(2) by simp
  then have ni: "run_pool raises sched (start_workers n g h cs) = Some (set_func g s)"
    using start_workers_set_func [OF assms(1), of g] by (simp add: run_pool_def)
  have "tasks_inv raises s"
    using tasks_run [OF assms(2)] start_workers_tasks [OF assms(1)] by simp
  then have tk: "tasks (put_log s)
      = tasks (queue (w_workq s)) + wsum before_call (w_workers s) + length (calls s)"
    using pc by (simp add: tasks_inv_def)
  have sp: "list_all (\<lambda>w. \<not> self_point w) (w_workers s)"
    using ns by (simp add: no_self_def)
  have ui: "unfinished_inv s"
    using acct_run [OF assms(2)] start_workers_acct [OF assms(1)] by (simp add: acct_inv_def)
  have od: "\<forall>i. i < length (w_workers s) \<and> w_workers s ! i = OuterDone \<longrightarrow>
      unfinished_tasks (w_workq s) \<noteq> 0"
    using unacked_pos [OF ui] by auto
  have s1: "\<forall>i. i < length (w_workers s) \<and> w_workers s ! i = Fetch \<longrightarrow>
            worker_step raises i s =
              (case queue (w_workq s) of
                 [] \<Rightarrow> None
               | wq # rest \<Rightarrow>
                   Some (set_worker i (if wq = PyNone then SentinelRelease else InnerFetch wq)
                           (s\<lparr>w_workq := (w_workq s)\<lparr>queue := rest\<rparr>\<rparr>)))"
    by (auto simp: worker_step_def Queue_get_def split: list.splits)
  have s2: "\<forall>i a. i < length (w_workers s) \<and> w_workers s ! i = InnerFetch (QRef a) \<longrightarrow>
            worker_step raises i s =
              (case queue (heap s a) of
                 [] \<Rightarrow> None
               | wi # rest \<Rightarrow>
                   Some (set_worker i (Call a wi)
                           (s\<lparr>heap := (heap s)(a := (heap s a)\<lparr>queue := rest\<rparr>)\<rparr>)))"
    by (auto simp: worker_step_def Queue_get_def split: list.splits)
  have s3: "\<forall>i a wi. i < length (w_workers s) \<and> w_workers s ! i = Call a wi \<longrightarrow>
            worker_step raises i s =
              Some (set_worker i
                      (if raises (func (h a)) wi then Crashed HandlerError else InnerRelease a)
                      (s\<lparr>calls := calls s @ [(func (h a), wi)]\<rparr>))"
    using hf by (simp add: worker_step_def)
  have s4: "\<forall>i a. i < length (w_workers s) \<and> w_workers s ! i = InnerRelease a \<longrightarrow>
            worker_step raises i s =
              Some (set_worker i (InnerDone a)
                      (s\<lparr>heap := (heap s)(a := task_done_unlock (heap s a))\<rparr>))"
    by (simp add: worker_step_def)
  have s5: "\<forall>i a. i < length (w_workers s) \<and> w_workers s ! i = InnerDone a \<longrightarrow>
            worker_step raises i s =
              (if unfinished_tasks (heap s a) = 0 then Some (set_worker i (Crashed ValueError) s)
               else Some (set_worker i OuterRelease
                            (s\<lparr>heap := (heap s)(a := (heap s a)
                                  \<lparr>unfinished_tasks := unfinished_tasks (heap s a) - 1\<rparr>)\<rparr>)))"
    by (simp add: worker_step_def Queue_task_done_def)
  have s6: "(\<forall>a. length (queue (h a)) \<le> unfinished_tasks (h a)) \<longrightarrow>
            (\<forall>i a. i < length (w_workers s) \<and> w_workers s ! i = InnerDone a \<longrightarrow>
               unfinished_tasks (heap s a) \<noteq> 0)"
  proof (intro impI allI)
    fix i a
    assume wf: "\<forall>a. length (queue (h a)) \<le> unfinished_tasks (h a)"
      and w: "i < length (w_workers s) \<and> w_workers s ! i = InnerDone a"
    have "inner_inv a s0" using assms(1) wf by (simp add: start_workers_inner)
    then have "inner_inv a s" using assms(2) by (simp add: inner_run)
    then show "unfinished_tasks (heap s a) \<noteq> 0"
      using w inner_unacked_pos [of a s i] by blast
  qed
  have s7: "\<forall>i. i < length (w_workers s) \<and> w_workers s ! i = OuterRelease \<longrightarrow>
            worker_step raises i s =
              Some (set_worker i OuterDone (s\<lparr>w_workq := task_done_unlock (w_workq s)\<rparr>))"
    by (simp add: worker_step_def)
  have s8: "\<forall>i. i < length (w_workers s) \<and> w_workers s ! i = OuterDone \<longrightarrow>
            worker_step raises i s =
              Some (set_worker i Fetch
                      (s\<lparr>w_workq := (w_workq s)
                            \<lparr>unfinished_tasks := unfinished_tasks (w_workq s) - 1\<rparr>\<rparr>))"
    using od by (auto simp: worker_step_def Queue_task_done_def)
  have s9: "\<forall>i x. i < length (w_workers s) \<and> w_workers s ! i = InnerFetch (Obj x) \<longrightarrow>
            worker_step raises i s = Some (set_worker i (Crashed AttributeError) s)"
    by (simp add: worker_step_def)
  have s10: "\<forall>i x. i < length (w_workers s) \<and> w_workers s ! i = InnerFetch (Dict x) \<longrightarrow>
            worker_step raises i s = Some (set_worker i (Crashed TypeError) s)"
    by (simp add: worker_step_def)
  have s11: "\<forall>i a. i < length (w_workers s) \<and> w_workers s ! i = InnerFetch (PlainQ a) \<longrightarrow>
            worker_step raises i s =
              (case queue (heap s a) of
                 [] \<Rightarrow> None
               | wi # rest \<Rightarrow>
                   Some (set_worker i CallPlain
                           (s\<lparr>heap := (heap s)(a := (heap s a)\<lparr>queue := rest\<rparr>)\<rparr>)))"
    by (auto simp: worker_step_def Queue_get_def split: list.splits)
  have s12: "\<forall>i. i < length (w_workers s) \<and> w_workers s ! i = CallPlain \<longrightarrow>
            worker_step raises i s = Some (set_worker i (Crashed AttributeError) s)"
    by (simp add: worker_step_def)
  have s13: "\<forall>t u i. step raises t s = Some u \<and> t \<noteq> Worker i \<longrightarrow>
            w_workers u ! i = w_workers s ! i"
    using other_thread_step by blast
  show ?thesis
    by (intro conjI) (fact fi pc ni cf tk sp s1 s2 s3 s4 s5 s6 s7 s8 od s9 s10 s11 s12 s13)+
qed

text \<open>
  C9, witness: one thread has taken a reference to a \<open>WorkQ\<close> of the store off the
  pool's queue. The pool's queue still stores \<open>outer\<close>, which was not called; started
  with another handler the pool is in the same state; and the next step of the thread takes
  the element 7 off the inner queue, to call the inner queue's \<open>handler\<close> on it.
\<close>

theorem worker_applies_inner_func_witness:
  "\<exists>s0 s. start_workers 1 ''outer'' demo_heap [Wenque (QRef 0)] = Inr s0
     \<and> run never_raises [Main, Main, Main, Worker 0] s0 = Some s
     \<and> Wenque Self \<notin> set [Wenque (QRef 0) :: nat call]
     \<and> 0 < length (w_workers s) \<and> w_workers s ! 0 = InnerFetch (QRef 0)
     \<and> queue (heap s 0) = [Obj 7] \<and> func (demo_heap 0) = ''handler''
     \<and> func (w_workq s) = ''outer'' \<and> pool_calls s = []
     \<and> run_pool never_raises [Main, Main, Main, Worker 0]
           (start_workers 1 ''other'' demo_heap [Wenque (QRef 0)]) = Some (set_func ''other'' s)
     \<and> worker_step never_raises 0 s =
           Some (set_worker 0 (Call 0 (Obj 7))
                   (s\<lparr>heap := (heap s)(0 := (heap s 0)\<lparr>queue := []\<rparr>)\<rparr>))"
proof -
  obtain s0 where s0: "start_workers 1 ''outer'' demo_heap [Wenque (QRef 0)] = Inr s0"
    by (simp add: start_workers_def WorkQ_def)
  note s0_eq = start_workers_Inr(2) [OF s0]
  obtain s where s: "run never_raises [Main, Main, Main, Worker 0] s0 = Some s"
    by (simp add: s0_eq eval_defs demo_inner_def demo_heap_def never_raises_def)
  have h: "0 < length (w_workers s)" "w_workers s ! 0 = InnerFetch (QRef 0)"
    "queue (heap s 0) = [Obj 7]"
    using s by (auto simp: s0_eq eval_defs demo_inner_def demo_heap_def never_raises_def)
  have d: "func (demo_heap 0) = ''handler''" by (simp add: demo_heap_def demo_inner_def)
  have ns: "Wenque Self \<notin> set [Wenque (QRef 0) :: nat call]" by simp
  note t = worker_applies_inner_func [where raises = never_raises and g = "''other''", OF s0 s ns]
  have a: "func (w_workq s) = ''outer''" "pool_calls s = []"
    "run_pool never_raises [Main, Main, Main, Worker 0]
       (start_workers 1 ''other'' demo_heap [Wenque (QRef 0)]) = Some (set_func ''other'' s)"
    using t by simp_all
  have "\<forall>i a. i < length (w_workers s) \<and> w_workers s ! i = InnerFetch (QRef a) \<longrightarrow>
            worker_step never_raises i s =
              (case queue (heap s a) of
                 [] \<Rightarrow> None
               | wi # rest \<Rightarrow>
                   Some (set_worker i (Call a wi)
                           (s\<lparr>heap := (heap s)(a := (heap s a)\<lparr>queue := rest\<rparr>)\<rparr>)))"
    using t by (elim conjE) assumption
  then have b: "worker_step never_raises 0 s =
           Some (set_worker 0 (Call 0 (Obj 7))
                   (s\<lparr>heap := (heap s)(0 := (heap s 0)\<lparr>queue := []\<rparr>)\<rparr>))"
    using h by simp
  show ?thesis using s0 s ns h d a b by blast
qed

text \<open>
  C9, counterexample: the caller submits the pool's own queue, which is a \<open>WorkQ\<close>, and
  then a task. The thread that takes the pool's queue as its \<open>wq\<close> takes the task off it
  at line 65, and line 66 calls the handler that \<open>start_workers\<close> was given on that
  task.
\<close>

theorem pool_func_invoked_counterexample:
  "map_option pool_calls
     (run_pool never_raises
        [Main, Main, Main, Main, Main, Main, Worker 0, Worker 0, Worker 0]
        (start_workers 2 ''outer'' demo_heap [Wenque Self, Wenque (QRef 0)]))
     = Some [(''outer'', QRef 0)]
   \<and> map_option calls
     (run_pool never_raises
        [Main, Main, Main, Main, Main, Main, Worker 0, Worker 0, Worker 0]
        (start_workers 2 ''outer'' demo_heap [Wenque Self, Wenque (QRef 0)]))
     = Some []
   \<and> map_option w_workers
     (run_pool never_raises
        [Main, Main, Main, Main, Main, Main, Worker 0, Worker 0, Worker 0]
        (start_workers 2 ''outer'' demo_heap [Wenque Self, Wenque (QRef 0)]))
     = Some [SelfRelease, Fetch]"
  by (simp add: eval_defs demo_inner_def demo_heap_def never_raises_def run_pool_def
      eval_nat_numeral)

subsection \<open>The scenario\<close>

lemma poll_done: "length cur = k \<Longrightarrow> poll k cur outs = Some (Inr cur)"
  by (cases "(k, cur, outs)" rule: poll.cases) simp_all

lemma spec_await_report_done:
  "length acc = n \<Longrightarrow> spec_await_report n acc outs = Some (Inr acc)"
  by (cases "(n, acc, outs)" rule: spec_await_report.cases) simp_all

lemma poll_decisive:
  "length cur \<noteq> k \<Longrightarrow>
   poll k cur outs =
     (case dropWhile (\<lambda>out. \<not> decisive k out) outs of
        [] \<Rightarrow> None
      | TimedOut # rest \<Rightarrow> Some (Inl Empty)
      | Arrived m # rest \<Rightarrow> Some (Inr m))"
proof (induction outs arbitrary: cur)
  case Nil
  then show ?case by simp
next
  case (Cons out outs)
  show ?case
  proof (cases out)
    case (Arrived m)
    then show ?thesis using Cons by (cases "length m = k") (simp_all add: poll_done)
  next
    case TimedOut
    then show ?thesis using Cons.prems by simp
  qed
qed

lemma poll_length: "poll k cur outs = Some (Inr m) \<Longrightarrow> length m = k"
proof (induction outs arbitrary: cur)
  case Nil
  then show ?case by (simp split: if_splits)
next
  case (Cons out outs)
  then show ?case by (cases out) (auto split: if_splits)
qed

text \<open>
  C7. One report is awaited, and \<open>k\<close> is the number of its components: 3 at line
  427, 2 at line 557. The loop blocks until a message of \<open>k\<close> components has arrived or
  a \<open>get\<close> has timed out, whichever comes first. On the timeout the result is
  \<open>queue.Empty\<close>, which nothing catches and which ends the test; what is returned
  otherwise is a whole message of \<open>k\<close> components, never partial state. When every
  message that arrives is a report, that is, has \<open>k\<close> components, this is the
  specification's \<open>await_report\<close> for one expected message.
\<close>

theorem await_report_polls_for_length:
  assumes "k \<noteq> 0"
  shows "await_report k outs =
           (case dropWhile (\<lambda>out. \<not> decisive k out) outs of
              [] \<Rightarrow> None
            | TimedOut # rest \<Rightarrow> Some (Inl Empty)
            | Arrived m # rest \<Rightarrow> Some (Inr m))
       \<and> (\<forall>m. await_report k outs = Some (Inr m) \<longrightarrow> length m = k)
       \<and> (list_all (decisive k) outs \<longrightarrow>
            map_option (map_sum id (\<lambda>m. [m])) (await_report k outs)
              = spec_await_report 1 [] outs)"
proof -
  have a: "await_report k outs =
           (case dropWhile (\<lambda>out. \<not> decisive k out) outs of
              [] \<Rightarrow> None
            | TimedOut # rest \<Rightarrow> Some (Inl Empty)
            | Arrived m # rest \<Rightarrow> Some (Inr m))"
    using assms poll_decisive [of "[]" k outs] by (simp add: await_report_def)
  have b: "\<forall>m. await_report k outs = Some (Inr m) \<longrightarrow> length m = k"
    using poll_length [of k "[]" outs] by (auto simp: await_report_def)
  have c: "list_all (decisive k) outs \<longrightarrow>
            map_option (map_sum id (\<lambda>m. [m])) (await_report k outs)
              = spec_await_report 1 [] outs"
  proof
    assume wf: "list_all (decisive k) outs"
    show "map_option (map_sum id (\<lambda>m. [m])) (await_report k outs)
              = spec_await_report 1 [] outs"
    proof (cases outs)
      case Nil
      then show ?thesis using assms by (simp add: await_report_def)
    next
      case (Cons out rest)
      show ?thesis
      proof (cases out)
        case (Arrived m)
        then have "length m = k" using wf Cons by simp
        then have "poll k m rest = Some (Inr m)" by (rule poll_done)
        moreover have "spec_await_report 1 [m] rest = Some (Inr [m])"
          by (rule spec_await_report_done) simp
        ultimately show ?thesis using assms Cons Arrived by (simp add: await_report_def)
      next
        case TimedOut
        then show ?thesis using assms Cons by (simp add: await_report_def)
      qed
    qed
  qed
  show ?thesis using a b c by blast
qed

text \<open>
  C7, witness: the report of three components arrives; the timeout comes first; nothing has
  arrived yet; and a message of another length is passed over.
\<close>

theorem await_report_polls_for_length_witness:
  "(3::nat) \<noteq> 0
   \<and> list_all (decisive 3) [Arrived [4::nat, 5, 6], TimedOut]
   \<and> await_report 3 [Arrived [4::nat, 5, 6], TimedOut] = Some (Inr [4, 5, 6])
   \<and> spec_await_report 1 [] [Arrived [4::nat, 5, 6], TimedOut] = Some (Inr [[4, 5, 6]])
   \<and> await_report 3 [TimedOut, Arrived [4::nat, 5, 6]] = Some (Inl Empty)
   \<and> spec_await_report 1 [] [TimedOut, Arrived [4::nat, 5, 6]] = Some (Inl Empty)
   \<and> await_report 3 ([] :: nat list got list) = None
   \<and> await_report 3 [Arrived [1::nat], Arrived [4, 5, 6], TimedOut] = Some (Inr [4, 5, 6])"
  using await_report_polls_for_length [of 3 "[Arrived [4::nat, 5, 6], TimedOut]"]
    await_report_polls_for_length [of 3 "[TimedOut, Arrived [4::nat, 5, 6]]"]
    await_report_polls_for_length [of 3 "[] :: nat list got list"]
    await_report_polls_for_length [of 3 "[Arrived [1::nat], Arrived [4, 5, 6], TimedOut]"]
  by simp

text \<open>
  C8, amended. Every sequence of \<open>set()\<close> and \<open>clear()\<close> on the event succeeds, from
  any state, and leaves the window open exactly when the last signal was \<open>set()\<close>: the
  transitions can be repeated and reversed, and none is an error.
\<close>

theorem fault_window_is_a_flag:
  "\<exists>e'. signals ss e = Inr e'
        \<and> is_set e' = (if ss = [] then is_set e else last ss = SignalOpen)"
proof (induction ss arbitrary: e)
  case Nil
  then show ?case by simp
next
  case (Cons sg ss)
  show ?case
  proof (cases sg)
    case SignalOpen
    then show ?thesis using Cons [of "e\<lparr>flag := True\<rparr>"]
      by (cases ss) (auto simp: event_set_def is_set_def)
  next
    case SignalClose
    then show ?thesis using Cons [of "e\<lparr>flag := False\<rparr>"]
      by (cases ss) (auto simp: event_clear_def is_set_def)
  qed
qed

text \<open>
  C8, counterexample: a second \<open>set()\<close> with no \<open>clear()\<close> between raises nothing and
  leaves the window open; and a window that was closed opens again.
\<close>

theorem double_open_counterexample:
  "signals [SignalOpen, SignalOpen] Event = Inr \<lparr>flag = True\<rparr>
   \<and> signals [SignalOpen, SignalClose, SignalOpen] Event = Inr \<lparr>flag = True\<rparr>"
  by (simp add: Event_def event_set_def event_clear_def)

end
